theory Spec2Isabelle
  imports Complex_Main "HOL-Library.Word" "HOL-Library.Signed_Division"
begin

text \<open>
  A model of the contact-sheet tool of \<open>main.go\<close>: the colour parser, the validation of the
  flags, the timestamp sampler, the frame fitter, cell-height inference, the grid
  compositor and the saving of the image, each function under the name it has in the
  source.

  What the model leaves to its reader:
  \<^item> Go's \<open>int\<close> is \<^typ>\<open>int\<close>. The arithmetic of the grid compositor wraps around at
    64 bits, as the machine type does; a slice or a bitmap too large to allocate (where
    \<open>make\<close> and \<open>image.NewRGBA\<close> panic) is not modelled.
  \<^item> \<open>float64\<close> is modelled value by value (section "The type float64"), every
    operation rounding on its own, as the compiled code does.
  \<^item> The calls into the standard library are modelled from their documented behaviour
    (\<open>strings\<close>, \<open>strconv\<close>, \<open>math\<close>, \<open>image\<close>, \<open>filepath.Ext\<close>), or are parameters where the
    result is the library's or the operating system's business: the compositing
    operator, the resampler, the encoders, \<open>filepath.Dir\<close> and the failures of the file
    system.
  \<^item> The external programs (\<open>ffprobe\<close>, \<open>ffmpeg\<close>) and \<open>main\<close> are not modelled.
\<close>

section \<open>Strings and the library calls of the colour parser\<close>

text \<open>
  A Go string is a sequence of bytes; \<open>len\<close> counts bytes and \<open>s[i:j]\<close> cuts bytes.
  It is modelled as \<^typ>\<open>string\<close>, a list of 8-bit characters.
\<close>

definition slice_string :: "string \<Rightarrow> nat \<Rightarrow> nat \<Rightarrow> string" where
  "slice_string s i j = take (j - i) (drop i s)"

text \<open>
  \<open>strings.TrimSpace\<close> removes the leading and the trailing white space "as defined by
  Unicode". On the bytes of the string these are the six ASCII characters tab, line feed,
  vertical tab, form feed, carriage return and space, and the UTF-8 encodings of U+0085,
  U+00A0, U+1680, U+2000 to U+200A, U+2028, U+2029, U+202F, U+205F and U+3000.
\<close>

definition whiteSpace :: "string list" where
  "whiteSpace =
    [[CHR 0x09], [CHR 0x0A], [CHR 0x0B], [CHR 0x0C], [CHR 0x0D], [CHR 0x20],
     [CHR 0xC2, CHR 0x85], [CHR 0xC2, CHR 0xA0], [CHR 0xE1, CHR 0x9A, CHR 0x80],
     [CHR 0xE2, CHR 0x80, CHR 0x80], [CHR 0xE2, CHR 0x80, CHR 0x81],
     [CHR 0xE2, CHR 0x80, CHR 0x82], [CHR 0xE2, CHR 0x80, CHR 0x83],
     [CHR 0xE2, CHR 0x80, CHR 0x84], [CHR 0xE2, CHR 0x80, CHR 0x85],
     [CHR 0xE2, CHR 0x80, CHR 0x86], [CHR 0xE2, CHR 0x80, CHR 0x87],
     [CHR 0xE2, CHR 0x80, CHR 0x88], [CHR 0xE2, CHR 0x80, CHR 0x89],
     [CHR 0xE2, CHR 0x80, CHR 0x8A], [CHR 0xE2, CHR 0x80, CHR 0xA8],
     [CHR 0xE2, CHR 0x80, CHR 0xA9], [CHR 0xE2, CHR 0x80, CHR 0xAF],
     [CHR 0xE2, CHR 0x81, CHR 0x9F], [CHR 0xE3, CHR 0x80, CHR 0x80]]"

text \<open>The number of bytes of the first listed sequence that starts \<open>s\<close>; 0 when none does.\<close>

fun spaceLen :: "string list \<Rightarrow> string \<Rightarrow> nat" where
  "spaceLen [] s = 0"
| "spaceLen (p # ps) s =
     (if p \<noteq> [] \<and> take (length p) s = p then length p else spaceLen ps s)"

lemma spaceLen_le: "spaceLen ps s \<le> length s"
proof (induction ps)
  case Nil
  show ?case by simp
next
  case (Cons p ps)
  have "length p \<le> length s" if "take (length p) s = p"
  proof -
    have "length (take (length p) s) = length p" using that by simp
    then show ?thesis by simp
  qed
  with Cons show ?case by simp
qed

function trimFront :: "string list \<Rightarrow> string \<Rightarrow> string" where
  "trimFront ps s =
     (if spaceLen ps s = 0 then s else trimFront ps (drop (spaceLen ps s) s))"
  by pat_completeness auto
termination
proof (relation "measure (\<lambda>(ps, s). length s)")
  show "wf (measure (\<lambda>(ps, s). length s))" by simp
next
  fix ps :: "string list" and s :: string
  assume "spaceLen ps s \<noteq> 0"
  moreover have "spaceLen ps s \<le> length s" by (rule spaceLen_le)
  ultimately show "((ps, drop (spaceLen ps s) s), (ps, s)) \<in> measure (\<lambda>(ps, s). length s)"
    by simp
qed

declare trimFront.simps [simp del]

definition TrimSpace :: "string \<Rightarrow> string" where
  "TrimSpace s = rev (trimFront (map rev whiteSpace) (rev (trimFront whiteSpace s)))"

text \<open>\<open>strings.TrimPrefix\<close>: the prefix is removed once when the string starts with it.\<close>

definition TrimPrefix :: "string \<Rightarrow> string \<Rightarrow> string" where
  "TrimPrefix s p = (if take (length p) s = p then drop (length p) s else s)"

text \<open>
  \<open>strconv.ParseUint(s, base, bitSize)\<close> for an explicit base from 2 to 36: no sign, no
  prefix and no underscore is accepted, every byte must be a digit below the base (letters
  in either case), the empty string is a syntax error and a value that does not fit
  \<open>bitSize\<close> bits is a range error.
\<close>

datatype NumError = ErrSyntax | ErrRange

definition digitVal :: "char \<Rightarrow> nat option" where
  "digitVal c =
     (let n = (of_char c :: nat) in
      if 48 \<le> n \<and> n \<le> 57 then Some (n - 48)
      else if 97 \<le> n \<and> n \<le> 122 then Some (n - 97 + 10)
      else if 65 \<le> n \<and> n \<le> 90 then Some (n - 65 + 10)
      else None)"

fun parseDigits :: "nat \<Rightarrow> nat \<Rightarrow> nat \<Rightarrow> string \<Rightarrow> NumError + nat" where
  "parseDigits base maxVal n [] = Inr n"
| "parseDigits base maxVal n (c # cs) =
     (case digitVal c of
        None \<Rightarrow> Inl ErrSyntax
      | Some d \<Rightarrow>
          if base \<le> d then Inl ErrSyntax
          else if maxVal < n * base + d then Inl ErrRange
          else parseDigits base maxVal (n * base + d) cs)"

definition ParseUint :: "string \<Rightarrow> nat \<Rightarrow> nat \<Rightarrow> NumError + nat" where
  "ParseUint s base bitSize =
     (if s = [] then Inl ErrSyntax else parseDigits base (2 ^ bitSize - 1) 0 s)"

section \<open>The colour parser\<close>

text \<open>\<open>color.RGBA\<close>: four \<open>uint8\<close> fields.\<close>

record RGBA =
  R :: "8 word"
  G :: "8 word"
  B :: "8 word"
  A :: "8 word"

text \<open>
  The two failures of \<open>parseHexColor\<close>: a two-digit group that \<open>ParseUint\<close> rejects, and
  a length that is neither 6 nor 8 (the message quotes the original value).
\<close>

datatype ColorError = ParseBackgroundFailed NumError | BackgroundFormat string

definition parseHexColor :: "string \<Rightarrow> ColorError + RGBA" where
  "parseHexColor val =
     (let hex = TrimPrefix (TrimSpace val) ''#'' in
      if length hex = 6 then
        (case ParseUint (slice_string hex 0 2) 16 8 of
           Inl e \<Rightarrow> Inl (ParseBackgroundFailed e)
         | Inr r \<Rightarrow>
        (case ParseUint (slice_string hex 2 4) 16 8 of
           Inl e \<Rightarrow> Inl (ParseBackgroundFailed e)
         | Inr g \<Rightarrow>
        (case ParseUint (slice_string hex 4 6) 16 8 of
           Inl e \<Rightarrow> Inl (ParseBackgroundFailed e)
         | Inr b \<Rightarrow> Inr \<lparr>R = of_nat r, G = of_nat g, B = of_nat b, A = 255\<rparr>)))
      else if length hex = 8 then
        (case ParseUint (slice_string hex 0 2) 16 8 of
           Inl e \<Rightarrow> Inl (ParseBackgroundFailed e)
         | Inr r \<Rightarrow>
        (case ParseUint (slice_string hex 2 4) 16 8 of
           Inl e \<Rightarrow> Inl (ParseBackgroundFailed e)
         | Inr g \<Rightarrow>
        (case ParseUint (slice_string hex 4 6) 16 8 of
           Inl e \<Rightarrow> Inl (ParseBackgroundFailed e)
         | Inr b \<Rightarrow>
        (case ParseUint (slice_string hex 6 8) 16 8 of
           Inl e \<Rightarrow> Inl (ParseBackgroundFailed e)
         | Inr a \<Rightarrow> Inr \<lparr>R = of_nat r, G = of_nat g, B = of_nat b, A = of_nat a\<rparr>))))
      else Inl (BackgroundFormat val))"

text \<open>The vocabulary of the parser's contract: hexadecimal digits and the value of a pair.\<close>

definition isHexDigit :: "char \<Rightarrow> bool" where
  "isHexDigit c =
     (let n = (of_char c :: nat) in
      (48 \<le> n \<and> n \<le> 57) \<or> (97 \<le> n \<and> n \<le> 102) \<or> (65 \<le> n \<and> n \<le> 70))"

definition hexVal :: "char \<Rightarrow> nat" where
  "hexVal c =
     (let n = (of_char c :: nat) in
      if n \<le> 57 then n - 48 else if 97 \<le> n then n - 87 else n - 55)"

definition hexByte :: "string \<Rightarrow> nat \<Rightarrow> 8 word" where
  "hexByte h i = of_nat (16 * hexVal (h ! i) + hexVal (h ! (i + 1)))"

section \<open>The type \<open>float64\<close>\<close>

text \<open>
  A \<open>float64\<close> is an IEEE 754 binary64 value: a finite value, an infinity or a NaN. A
  finite value is held as the rational number it denotes. The two zeros are one value
  here: the functions below never divide by a computed zero (every divisor is a converted
  integer or a constant), so the sign of a zero decides no result, and the two zeros are
  equal under \<open>==\<close>.

  Every operation computes the exact result and rounds it to the nearest binary64 value,
  ties to the even significand (\<open>fl\<close>): 53 significant bits, exponents from \<open>-1022\<close> to
  \<open>1023\<close>, gradual underflow below \<open>2^-1022\<close>, and an infinity from \<open>2^1024\<close> on. No
  product below is followed by a sum, so no operation is fused with another.
\<close>

datatype float64 = Finite rat | PosInf | NegInf | NaN

definition pow2 :: "int \<Rightarrow> rat" where
  "pow2 e = (if 0 \<le> e then 2 ^ nat e else 1 / 2 ^ nat (- e))"

text \<open>The number of binary digits of a positive integer (0 for the others).\<close>

function bits :: "int \<Rightarrow> int" where
  "bits n = (if n \<le> 0 then 0 else 1 + bits (n div 2))"
  by pat_completeness auto
termination
  by (relation "measure nat") auto

declare bits.simps [simp del]

text \<open>The exponent of a positive rational: \<open>2 ^ ilog2 x \<le> x < 2 ^ (ilog2 x + 1)\<close>.\<close>

definition ilog2 :: "rat \<Rightarrow> int" where
  "ilog2 x = (if 1 \<le> x then bits \<lfloor>x\<rfloor> - 1 else - bits (\<lceil>1 / x\<rceil> - 1))"

text \<open>The nearest integer, a tie going to the even one.\<close>

definition roundEven :: "rat \<Rightarrow> int" where
  "roundEven y =
     (let f = \<lfloor>y\<rfloor>; d = y - of_int f in
      if d < 1 / 2 then f
      else if 1 / 2 < d then f + 1
      else if even f then f else f + 1)"

definition fl :: "rat \<Rightarrow> float64" where
  "fl x =
     (if x = 0 then Finite 0
      else
        (let e = max (ilog2 \<bar>x\<bar>) (- 1022);
             q = pow2 (e - 52);
             r = of_int (roundEven (x / q)) * q
         in if pow2 1024 \<le> \<bar>r\<bar> then (if 0 < x then PosInf else NegInf) else Finite r))"

text \<open>The unit roundoff: a rounded value in the normal range is within this relative error.\<close>

definition unitRoundoff :: rat where
  "unitRoundoff = 1 / 2 ^ 53"

text \<open>\<open>float64(n)\<close> for an integer \<open>n\<close>.\<close>

definition float64 :: "int \<Rightarrow> float64" where
  "float64 n = fl (of_int n)"

text \<open>The product \<open>a * b\<close>.\<close>

fun fmul :: "float64 \<Rightarrow> float64 \<Rightarrow> float64" where
  "fmul (Finite a) (Finite b) = fl (a * b)"
| "fmul NaN b = NaN"
| "fmul a NaN = NaN"
| "fmul (Finite a) PosInf = (if a = 0 then NaN else if 0 < a then PosInf else NegInf)"
| "fmul (Finite a) NegInf = (if a = 0 then NaN else if 0 < a then NegInf else PosInf)"
| "fmul PosInf (Finite b) = (if b = 0 then NaN else if 0 < b then PosInf else NegInf)"
| "fmul NegInf (Finite b) = (if b = 0 then NaN else if 0 < b then NegInf else PosInf)"
| "fmul PosInf PosInf = PosInf"
| "fmul PosInf NegInf = NegInf"
| "fmul NegInf PosInf = NegInf"
| "fmul NegInf NegInf = PosInf"

text \<open>The quotient \<open>a / b\<close>; a zero divisor is the positive zero.\<close>

fun fdiv :: "float64 \<Rightarrow> float64 \<Rightarrow> float64" where
  "fdiv (Finite a) (Finite b) =
     (if b = 0 then (if a = 0 then NaN else if 0 < a then PosInf else NegInf)
      else fl (a / b))"
| "fdiv NaN b = NaN"
| "fdiv a NaN = NaN"
| "fdiv (Finite a) PosInf = Finite 0"
| "fdiv (Finite a) NegInf = Finite 0"
| "fdiv PosInf (Finite b) = (if 0 \<le> b then PosInf else NegInf)"
| "fdiv NegInf (Finite b) = (if 0 \<le> b then NegInf else PosInf)"
| "fdiv PosInf PosInf = NaN"
| "fdiv PosInf NegInf = NaN"
| "fdiv NegInf PosInf = NaN"
| "fdiv NegInf NegInf = NaN"

text \<open>The comparisons \<open>a <= 0\<close> and \<open>a < b\<close>; a comparison with a NaN is false.\<close>

fun fle0 :: "float64 \<Rightarrow> bool" where
  "fle0 (Finite a) = (a \<le> 0)"
| "fle0 NegInf = True"
| "fle0 PosInf = False"
| "fle0 NaN = False"

fun flt :: "float64 \<Rightarrow> float64 \<Rightarrow> bool" where
  "flt NaN b = False"
| "flt a NaN = False"
| "flt (Finite a) (Finite b) = (a < b)"
| "flt NegInf NegInf = False"
| "flt NegInf b = True"
| "flt a NegInf = False"
| "flt PosInf b = False"
| "flt (Finite a) PosInf = True"

definition IsInf :: "float64 \<Rightarrow> bool" where
  "IsInf a = (a = PosInf \<or> a = NegInf)"

definition IsNaN :: "float64 \<Rightarrow> bool" where
  "IsNaN a = (a = NaN)"

text \<open>
  \<open>math.Min\<close>: a negative infinity wins, then a NaN, then the smaller value.
\<close>

definition Min_float :: "float64 \<Rightarrow> float64 \<Rightarrow> float64" where
  "Min_float x y =
     (if x = NegInf \<or> y = NegInf then NegInf
      else if x = NaN \<or> y = NaN then NaN
      else if flt x y then x else y)"

text \<open>
  \<open>math.Round\<close>: the nearest integer, a tie going away from zero; infinities and NaN are
  returned as they are.
\<close>

definition roundAway :: "rat \<Rightarrow> int" where
  "roundAway y = (if 0 \<le> y then \<lfloor>y + 1 / 2\<rfloor> else - \<lfloor>- y + 1 / 2\<rfloor>)"

fun Round :: "float64 \<Rightarrow> float64" where
  "Round (Finite a) = Finite (of_int (roundAway a))"
| "Round a = a"

text \<open>
  The conversion \<open>int(f)\<close> drops the fraction (towards zero). For a NaN, an infinity and a
  value outside the range of a 64-bit \<open>int\<close> the result depends on the implementation:
  \<open>None\<close>.
\<close>

definition truncToInt :: "rat \<Rightarrow> int" where
  "truncToInt y = (if 0 \<le> y then \<lfloor>y\<rfloor> else - \<lfloor>- y\<rfloor>)"

fun toInt :: "float64 \<Rightarrow> int option" where
  "toInt (Finite a) =
     (if - (2 ^ 63) \<le> truncToInt a \<and> truncToInt a < 2 ^ 63 then Some (truncToInt a) else None)"
| "toInt a = None"

text \<open>\<open>math.MaxFloat64\<close>, the largest finite value.\<close>

definition MaxFloat64 :: rat where
  "MaxFloat64 = (2 ^ 53 - 1) * pow2 971"

section \<open>The timestamp sampler\<close>

text \<open>
  The loop \<open>for i := 0; i < count; i++ { timestamps[i] = interval * float64(i+1) }\<close> over
  the slice that \<open>make\<close> has filled with zeros.
\<close>

function fillTimestamps :: "float64 \<Rightarrow> int \<Rightarrow> int \<Rightarrow> float64 list \<Rightarrow> float64 list" where
  "fillTimestamps interval count i timestamps =
     (if i < count
      then fillTimestamps interval count (i + 1)
             (timestamps[nat i := fmul interval (float64 (i + 1))])
      else timestamps)"
  by pat_completeness auto
termination
  by (relation "measure (\<lambda>(interval, count, i, timestamps). nat (count - i))") auto

declare fillTimestamps.simps [simp del]

definition sampleTimestamps :: "float64 \<Rightarrow> int \<Rightarrow> float64 list" where
  "sampleTimestamps duration count =
     (if count \<le> 0 then []
      else if count = 1 then [fdiv duration (Finite 2)]
      else
        (let timestamps = replicate (nat count) (Finite 0);
             interval = fdiv duration (float64 (count + 1))
         in fillTimestamps interval count 0 timestamps))"

section \<open>The frame fitter\<close>

text \<open>
  The new size that \<open>scaleToFit\<close> computes from the size of the bitmap and the box. A
  conversion to \<open>int\<close> whose result depends on the implementation gives \<open>None\<close>.
\<close>

definition fitSize :: "int \<Rightarrow> int \<Rightarrow> int \<Rightarrow> int \<Rightarrow> (int \<times> int) option" where
  "fitSize width height maxWidth maxHeight =
     (let scale = Min_float (fdiv (float64 maxWidth) (float64 width))
                      (fdiv (float64 maxHeight) (float64 height));
          scale = (if fle0 scale \<or> IsInf scale \<or> IsNaN scale then Finite 1 else scale)
      in case toInt (Round (fmul (float64 width) scale)) of
           None \<Rightarrow> None
         | Some newWidth \<Rightarrow>
        (case toInt (Round (fmul (float64 height) scale)) of
           None \<Rightarrow> None
         | Some newHeight \<Rightarrow>
             Some (if newWidth \<le> 0 then 1 else newWidth,
                   if newHeight \<le> 0 then 1 else newHeight)))"

section \<open>Cell-height inference\<close>

text \<open>The fallback \<open>int(float64(cellWidth) * 9.0 / 16.0)\<close>, computed from left to right.\<close>

definition fallbackHeight :: "int \<Rightarrow> int option" where
  "fallbackHeight cellWidth = toInt (fdiv (fmul (float64 cellWidth) (Finite 9)) (Finite 16))"

definition inferCellHeight :: "int \<Rightarrow> int \<Rightarrow> int \<Rightarrow> int option" where
  "inferCellHeight cellWidth videoWidth videoHeight =
     (if videoWidth \<le> 0 \<or> videoHeight \<le> 0 then fallbackHeight cellWidth
      else
        (let ratio = fdiv (float64 videoHeight) (float64 videoWidth) in
         case toInt (Round (fmul (float64 cellWidth) ratio)) of
           None \<Rightarrow> None
         | Some height \<Rightarrow> if height \<le> 0 then fallbackHeight cellWidth else Some height))"

section \<open>Configuration\<close>

text \<open>The fields \<open>input\<close> and \<open>output\<close> are \<open>inputPath\<close> and \<open>outputPath\<close> here.\<close>

record gridConfig =
  inputPath :: string
  outputPath :: string
  rows :: int
  cols :: int
  cellWidth :: int
  cellHeight :: int
  margin :: int
  jpegQuality :: int
  background :: RGBA

text \<open>
  The values of the command line flags once \<open>flag.Parse\<close> has returned: each flag holds
  what the command line gave, or its default. \<open>parseFlags\<close> below is the validation
  that follows \<open>flag.Parse\<close>.
\<close>

record flagValues =
  inputFlag :: string
  outputFlag :: string
  rowsFlag :: int
  colsFlag :: int
  cellWidthFlag :: int
  cellHeightFlag :: int
  marginFlag :: int
  qualityFlag :: int
  backgroundFlag :: string

definition defaultFlags :: flagValues where
  "defaultFlags =
     \<lparr>inputFlag = '''', outputFlag = ''preview.png'', rowsFlag = 3, colsFlag = 3,
      cellWidthFlag = 320, cellHeightFlag = 0, marginFlag = 8, qualityFlag = 90,
      backgroundFlag = ''#FFFFFF''\<rparr>"

datatype FlagError =
    MissingInput
  | RowsColsNotPositive
  | CellWidthNotPositive
  | NegativeMargin
  | QualityOutOfRange
  | BadBackground ColorError

definition parseFlags :: "flagValues \<Rightarrow> FlagError + gridConfig" where
  "parseFlags flags =
     (if inputFlag flags = '''' then Inl MissingInput
      else if rowsFlag flags \<le> 0 \<or> colsFlag flags \<le> 0 then Inl RowsColsNotPositive
      else if cellWidthFlag flags \<le> 0 then Inl CellWidthNotPositive
      else if marginFlag flags < 0 then Inl NegativeMargin
      else if qualityFlag flags < 1 \<or> 100 < qualityFlag flags then Inl QualityOutOfRange
      else
        (case parseHexColor (backgroundFlag flags) of
           Inl e \<Rightarrow> Inl (BadBackground e)
         | Inr colorValue \<Rightarrow>
             Inr \<lparr>inputPath = inputFlag flags, outputPath = outputFlag flags, rows = rowsFlag flags,
                  cols = colsFlag flags, cellWidth = cellWidthFlag flags,
                  cellHeight = cellHeightFlag flags, margin = marginFlag flags,
                  jpegQuality = qualityFlag flags, background = colorValue\<rparr>))"

section \<open>Saving the image\<close>

text \<open>
  \<open>filepath.Ext\<close> with \<open>/\<close> as the path separator: the suffix that starts at the last
  dot of the last element of the path, empty when that element has no dot. The scan runs
  from the end of the path, as the library's loop does.
\<close>

fun extScan :: "string \<Rightarrow> string \<Rightarrow> string" where
  "extScan [] acc = []"
| "extScan (c # cs) acc =
     (if c = CHR ''/'' then []
      else if c = CHR ''.'' then c # acc
      else extScan cs (c # acc))"

definition Ext :: "string \<Rightarrow> string" where
  "Ext path = extScan (rev path) []"

text \<open>
  \<open>strings.ToLower\<close> on the ASCII letters. Bytes outside ASCII are left as they are; Go
  maps them rune by rune, and never to one of the letters of \<open>.png\<close>, \<open>.jpg\<close> and
  \<open>.jpeg\<close>, so the comparison in \<open>saveImage\<close> is not affected.
\<close>

definition lowerByte :: "char \<Rightarrow> char" where
  "lowerByte c =
     (let n = (of_char c :: nat) in if 65 \<le> n \<and> n \<le> 90 then char_of (n + 32) else c)"

definition ToLower :: "string \<Rightarrow> string" where
  "ToLower s = map lowerByte s"

text \<open>
  The file system is a state: the contents of the files and the set of directories.
  Whether the operating system refuses to create a directory or a file (permissions, a
  file in the way, a full disk) is not decided by the program; the record \<open>OS\<close> holds
  those answers, the library's \<open>filepath.Dir\<close>, and the two encoders, each returning the
  bytes it wrote and whether it succeeded.
\<close>

record FileSystem =
  files :: "string \<rightharpoonup> string"
  dirs :: "string set"

record 'img OS =
  Dir :: "string \<Rightarrow> string"
  mkdirFails :: "string \<Rightarrow> bool"
  createFails :: "string \<Rightarrow> bool"
  pngEncode :: "'img \<Rightarrow> string \<times> bool"
  jpegEncode :: "'img \<Rightarrow> int \<Rightarrow> string \<times> bool"

datatype SaveError = MkdirFailed | CreateFailed | EncodeFailed | UnsupportedFormat

definition MkdirAll :: "'img OS \<Rightarrow> FileSystem \<Rightarrow> string \<Rightarrow> FileSystem \<times> SaveError option" where
  "MkdirAll os fs d =
     (if mkdirFails os d then (fs, Some MkdirFailed)
      else (fs\<lparr>dirs := insert d (dirs fs)\<rparr>, None))"

definition ensureOutputDir :: "'img OS \<Rightarrow> FileSystem \<Rightarrow> string \<Rightarrow> FileSystem \<times> SaveError option" where
  "ensureOutputDir os fs path =
     (let dir = Dir os path in
      if dir = ''.'' \<or> dir = '''' then (fs, None) else MkdirAll os fs dir)"

text \<open>\<open>os.Create\<close> creates the file, or truncates it when it exists.\<close>

definition Create :: "'img OS \<Rightarrow> FileSystem \<Rightarrow> string \<Rightarrow> FileSystem \<times> SaveError option" where
  "Create os fs path =
     (if createFails os path then (fs, Some CreateFailed)
      else (fs\<lparr>files := (files fs)(path \<mapsto> [])\<rparr>, None))"

definition writeFile :: "FileSystem \<Rightarrow> string \<Rightarrow> string \<times> bool \<Rightarrow> FileSystem \<times> SaveError option" where
  "writeFile fs path out =
     (fs\<lparr>files := (files fs)(path \<mapsto> fst out)\<rparr>, if snd out then None else Some EncodeFailed)"

definition saveImage ::
  "'img OS \<Rightarrow> FileSystem \<Rightarrow> 'img \<Rightarrow> string \<Rightarrow> int \<Rightarrow> FileSystem \<times> SaveError option" where
  "saveImage os fs img path quality =
     (case ensureOutputDir os fs path of
        (fs1, Some err) \<Rightarrow> (fs1, Some err)
      | (fs1, None) \<Rightarrow>
     (case Create os fs1 path of
        (fs2, Some err) \<Rightarrow> (fs2, Some err)
      | (fs2, None) \<Rightarrow>
          (let ext = ToLower (Ext path) in
           if ext = ''.jpg'' \<or> ext = ''.jpeg'' then writeFile fs2 path (jpegEncode os img quality)
           else if ext = ''.png'' \<or> ext = '''' then writeFile fs2 path (pngEncode os img)
           else (fs2, Some UnsupportedFormat))))"

text \<open>A file system with nothing in it, and an operating system that refuses nothing.\<close>

definition plainOS :: "unit OS" where
  "plainOS =
     \<lparr>Dir = (\<lambda>p. ''.''), mkdirFails = (\<lambda>d. False), createFails = (\<lambda>p. False),
      pngEncode = (\<lambda>img. (''PNG'', True)), jpegEncode = (\<lambda>img q. (''JPEG'', True))\<rparr>"

definition emptyFS :: FileSystem where
  "emptyFS = \<lparr>files = Map.empty, dirs = {}\<rparr>"

section \<open>Images and the grid compositor\<close>

text \<open>
  \<open>image.Rectangle\<close> holds the points with \<open>MinX \<le> x < MaxX\<close> and \<open>MinY \<le> y < MaxY\<close>.
  \<open>image.Rect\<close> swaps the coordinates of an axis when they come in the wrong order.
\<close>

record Rectangle =
  MinX :: int
  MinY :: int
  MaxX :: int
  MaxY :: int

definition Rect :: "int \<Rightarrow> int \<Rightarrow> int \<Rightarrow> int \<Rightarrow> Rectangle" where
  "Rect x0 y0 x1 y1 =
     \<lparr>MinX = (if x0 > x1 then x1 else x0), MinY = (if y0 > y1 then y1 else y0),
      MaxX = (if x0 > x1 then x0 else x1), MaxY = (if y0 > y1 then y0 else y1)\<rparr>"

definition Dx :: "Rectangle \<Rightarrow> int" where
  "Dx r = MaxX r - MinX r"

definition Dy :: "Rectangle \<Rightarrow> int" where
  "Dy r = MaxY r - MinY r"





text \<open>
  An \<open>image.Image\<close> is what its interface shows: the bounds and the colour at each point.
  A \<open>nil\<close> image is \<open>None\<close>. \<open>image.NewRGBA\<close> gives an image whose pixels are all zero.
\<close>

record Image =
  Bounds :: Rectangle
  At :: "int \<Rightarrow> int \<Rightarrow> RGBA"

definition NewRGBA :: "Rectangle \<Rightarrow> Image" where
  "NewRGBA r = \<lparr>Bounds = r, At = (\<lambda>x y. \<lparr>R = 0, G = 0, B = 0, A = 0\<rparr>)\<rparr>"

























section \<open>The frame fitter: the bitmap\<close>

text \<open>
  \<open>scaleToFit\<close>: the bitmap of the new size. The pixels are those of the library's
  resampler (\<open>xdraw.ApproxBiLinear.Scale\<close>), a parameter: from the source image and the
  rectangle of the destination to the colour at each point.
\<close>

definition scaleToFit ::
  "(Image \<Rightarrow> Rectangle \<Rightarrow> int \<Rightarrow> int \<Rightarrow> RGBA) \<Rightarrow> Image \<Rightarrow> int \<Rightarrow> int \<Rightarrow> Image option" where
  "scaleToFit resample img maxWidth maxHeight =
     (let bounds = Bounds img;
          width = Dx bounds;
          height = Dy bounds
      in case fitSize width height maxWidth maxHeight of
           None \<Rightarrow> None
         | Some (newWidth, newHeight) \<Rightarrow>
             (let dst = NewRGBA (Rect 0 0 newWidth newHeight)
              in Some (dst\<lparr>At := resample img (Bounds dst)\<rparr>)))"

text \<open>A black frame of 640 by 360 pixels, and a resampler that reads the source where it is.\<close>

definition videoFrame :: Image where
  "videoFrame =
     \<lparr>Bounds = \<lparr>MinX = 0, MinY = 0, MaxX = 640, MaxY = 360\<rparr>,
      At = (\<lambda>x y. \<lparr>R = 0, G = 0, B = 0, A = 255\<rparr>)\<rparr>"

definition nearest :: "Image \<Rightarrow> Rectangle \<Rightarrow> int \<Rightarrow> int \<Rightarrow> RGBA" where
  "nearest img r x y = At img x y"

text \<open>A black frame of 1280 by 720 pixels.\<close>

definition hdFrame :: Image where
  "hdFrame =
     \<lparr>Bounds = \<lparr>MinX = 0, MinY = 0, MaxX = 1280, MaxY = 720\<rparr>,
      At = (\<lambda>x y. \<lparr>R = 0, G = 0, B = 0, A = 255\<rparr>)\<rparr>"

section \<open>The colour parser: what it accepts\<close>

lemma digitVal_hex: "isHexDigit c \<Longrightarrow> digitVal c = Some (hexVal c) \<and> hexVal c < 16"
proof -
  define n where "n = (of_char c :: nat)"
  assume "isHexDigit c"
  then have h: "(48 \<le> n \<and> n \<le> 57) \<or> (97 \<le> n \<and> n \<le> 102) \<or> (65 \<le> n \<and> n \<le> 70)"
    unfolding isHexDigit_def Let_def n_def .
  have "digitVal c = (if 48 \<le> n \<and> n \<le> 57 then Some (n - 48)
      else if 97 \<le> n \<and> n \<le> 122 then Some (n - 97 + 10)
      else if 65 \<le> n \<and> n \<le> 90 then Some (n - 65 + 10)
      else None)"
    unfolding digitVal_def Let_def n_def ..
  moreover have "hexVal c = (if n \<le> 57 then n - 48 else if 97 \<le> n then n - 87 else n - 55)"
    unfolding hexVal_def Let_def n_def ..
  ultimately show ?thesis using h by auto
qed
lemma digitVal_nonhex: "\<not> isHexDigit c \<Longrightarrow> digitVal c = None \<or> (\<exists>d. digitVal c = Some d \<and> 16 \<le> d)"
proof -
  define n where "n = (of_char c :: nat)"
  assume "\<not> isHexDigit c"
  then have h: "\<not> ((48 \<le> n \<and> n \<le> 57) \<or> (97 \<le> n \<and> n \<le> 102) \<or> (65 \<le> n \<and> n \<le> 70))"
    unfolding isHexDigit_def Let_def n_def .
  have "digitVal c = (if 48 \<le> n \<and> n \<le> 57 then Some (n - 48)
      else if 97 \<le> n \<and> n \<le> 122 then Some (n - 97 + 10)
      else if 65 \<le> n \<and> n \<le> 90 then Some (n - 65 + 10)
      else None)"
    unfolding digitVal_def Let_def n_def ..
  then show ?thesis using h by auto
qed
lemma ParseUint_pair: "ParseUint [a, b] 16 8 = (if isHexDigit a \<and> isHexDigit b then Inr (16 * hexVal a + hexVal b) else Inl ErrSyntax)"
proof (cases "isHexDigit a")
  case True
  note a = digitVal_hex [OF True]
  show ?thesis
  proof (cases "isHexDigit b")
    case True
    note b = digitVal_hex [OF True]
    from a b \<open>isHexDigit a\<close> True show ?thesis
      by (simp add: ParseUint_def)
  next
    case False
    from digitVal_nonhex [OF False] a \<open>isHexDigit a\<close> False show ?thesis
      by (auto simp: ParseUint_def)
  qed
next
  case False
  from digitVal_nonhex [OF False] False show ?thesis
    by (auto simp: ParseUint_def)
qed

lemma len6: "length h = 6 \<Longrightarrow> \<exists>a b c d e f. h = [a, b, c, d, e, f]"
  by (auto simp: numeral_eq_Suc length_Suc_conv)
lemma len8: "length h = 8 \<Longrightarrow> \<exists>a b c d e f g i. h = [a, b, c, d, e, f, g, i]"
  by (auto simp: numeral_eq_Suc length_Suc_conv)

lemma parse6:
  assumes "TrimPrefix (TrimSpace s) ''#'' = [a, b, c, d, e, f]"
  shows "parseHexColor s =
     (if list_all isHexDigit [a, b, c, d, e, f]
      then Inr \<lparr>R = hexByte [a, b, c, d, e, f] 0, G = hexByte [a, b, c, d, e, f] 2, B = hexByte [a, b, c, d, e, f] 4, A = 255\<rparr>
      else Inl (ParseBackgroundFailed ErrSyntax))"
  using assms
  by (simp add: parseHexColor_def Let_def slice_string_def ParseUint_pair hexByte_def)

lemma parse8:
  assumes "TrimPrefix (TrimSpace s) ''#'' = [a, b, c, d, e, f, g, i]"
  shows "parseHexColor s =
     (if list_all isHexDigit [a, b, c, d, e, f, g, i]
      then Inr \<lparr>R = hexByte [a, b, c, d, e, f, g, i] 0, G = hexByte [a, b, c, d, e, f, g, i] 2,
        B = hexByte [a, b, c, d, e, f, g, i] 4, A = hexByte [a, b, c, d, e, f, g, i] 6\<rparr>
      else Inl (ParseBackgroundFailed ErrSyntax))"
  using assms
  by (simp add: parseHexColor_def Let_def slice_string_def ParseUint_pair hexByte_def)

text \<open>
  Claim C6, as the code has it. The parser first trims the surrounding white space
  (\<open>strings.TrimSpace\<close>) and only then removes one optional leading \<open>#\<close>; it succeeds
  exactly when what is left is 6 or 8 hexadecimal digits, in either case of the letters.
  Six digits give \<open>RGBA(R, G, B, 255)\<close>, eight give \<open>RGBA(R, G, B, A)\<close>. Every other
  input fails: with the parse error when the length is 6 or 8 and some group is not
  hexadecimal, with the format error for every other length.
\<close>

theorem parseHexColor_trimmed:
  "parseHexColor s =
     (let h = TrimPrefix (TrimSpace s) ''#'' in
      if length h = 6 \<and> list_all isHexDigit h then
        Inr \<lparr>R = hexByte h 0, G = hexByte h 2, B = hexByte h 4, A = 255\<rparr>
      else if length h = 8 \<and> list_all isHexDigit h then
        Inr \<lparr>R = hexByte h 0, G = hexByte h 2, B = hexByte h 4, A = hexByte h 6\<rparr>
      else if length h = 6 \<or> length h = 8 then Inl (ParseBackgroundFailed ErrSyntax)
      else Inl (BackgroundFormat s))"
proof -
  define h where "h = TrimPrefix (TrimSpace s) ''#''"
  consider "length h = 6" | "length h = 8" | "length h \<noteq> 6 \<and> length h \<noteq> 8" by blast
  then show ?thesis
  proof cases
    case 1
    then obtain a b c d e f where l: "h = [a, b, c, d, e, f]" using len6 by blast
    from parse6 [of s a b c d e f] l show ?thesis
      unfolding h_def [symmetric] Let_def by (simp add: h_def [symmetric])
  next
    case 2
    then obtain a b c d e f g i where l: "h = [a, b, c, d, e, f, g, i]" using len8 by blast
    from parse8 [of s a b c d e f g i] l show ?thesis
      unfolding h_def [symmetric] Let_def by (simp add: h_def [symmetric])
  next
    case 3
    then show ?thesis
      by (simp add: parseHexColor_def Let_def h_def [symmetric])
  qed
qed

text \<open>
  The theorem at the three inputs the specification lists, and at a string of the wrong
  length: \<open>#FF0000\<close> is opaque red, \<open>#00FF0080\<close> is green with alpha 128, \<open>GGHHII\<close> and
  \<open>#FFF\<close> are errors.
\<close>

theorem parseHexColor_trimmed_witness:
  "parseHexColor ''#FF0000'' = Inr \<lparr>R = 255, G = 0, B = 0, A = 255\<rparr> \<and>
   parseHexColor ''#00FF0080'' = Inr \<lparr>R = 0, G = 255, B = 0, A = 128\<rparr> \<and>
   parseHexColor ''GGHHII'' = Inl (ParseBackgroundFailed ErrSyntax) \<and>
   parseHexColor ''#FFF'' = Inl (BackgroundFormat ''#FFF'')"
proof -
  have spec: "parseHexColor s = r" if "(let h = TrimPrefix (TrimSpace s) ''#'' in
      if length h = 6 \<and> list_all isHexDigit h then
        Inr \<lparr>R = hexByte h 0, G = hexByte h 2, B = hexByte h 4, A = 255\<rparr>
      else if length h = 8 \<and> list_all isHexDigit h then
        Inr \<lparr>R = hexByte h 0, G = hexByte h 2, B = hexByte h 4, A = hexByte h 6\<rparr>
      else if length h = 6 \<or> length h = 8 then Inl (ParseBackgroundFailed ErrSyntax)
      else Inl (BackgroundFormat s)) = r" for s r
    using that parseHexColor_trimmed [of s] by simp
  have "parseHexColor ''#FF0000'' = Inr \<lparr>R = 255, G = 0, B = 0, A = 255\<rparr>"
    by (rule spec) code_simp
  moreover have "parseHexColor ''#00FF0080'' = Inr \<lparr>R = 0, G = 255, B = 0, A = 128\<rparr>"
    by (rule spec) code_simp
  moreover have "parseHexColor ''GGHHII'' = Inl (ParseBackgroundFailed ErrSyntax)"
    by (rule spec) code_simp
  moreover have "parseHexColor ''#FFF'' = Inl (BackgroundFormat ''#FFF'')"
    by (rule spec) code_simp
  ultimately show ?thesis by blast
qed

text \<open>
  Claim C6 as it is written does not hold: it removes the optional \<open>#\<close> from the input
  itself. With a leading space the input does not start with \<open>#\<close>, what is left is not
  6 or 8 hexadecimal digits, and yet the parser succeeds, since it trims first.
\<close>

theorem parseHexColor_untrimmed_counterexample:
  "parseHexColor '' #FF0000'' = Inr \<lparr>R = 255, G = 0, B = 0, A = 255\<rparr> \<and>
   \<not> (let h = TrimPrefix '' #FF0000'' ''#'' in
        (length h = 6 \<or> length h = 8) \<and> list_all isHexDigit h)"
  by code_simp

section \<open>Configuration: a negative cell height\<close>

text \<open>
  Claim C8 says that a negative cell height is rejected. \<open>parseFlags\<close> checks the rows,
  the columns, the cell width, the margin and the quality, and never looks at the cell
  height: with \<open>--input v.mp4 --cell-height -5\<close> and every other flag at its default it
  returns the configuration, cell height \<open>-5\<close> included, and no error.
\<close>

theorem parseFlags_negative_cellHeight_accepted:
  "parseFlags (defaultFlags\<lparr>inputFlag := ''v.mp4'', cellHeightFlag := - 5\<rparr>) =
     Inr \<lparr>inputPath = ''v.mp4'', outputPath = ''preview.png'', rows = 3, cols = 3,
          cellWidth = 320, cellHeight = - 5, margin = 8, jpegQuality = 90,
          background = \<lparr>R = 255, G = 255, B = 255, A = 255\<rparr>\<rparr>"
  by code_simp

section \<open>Saving the image: an extension that is not supported\<close>

text \<open>
  Claim C9, as the code has it. For a path whose lower-case extension is none of
  \<open>.png\<close>, \<open>.jpg\<close>, \<open>.jpeg\<close> and the empty one, \<open>saveImage\<close> always returns an error.
  The extension is examined only after the output directory and the output file have
  been created: when the operating system refuses neither, the error is the one for an
  unsupported format, and the file at the path is left behind, empty (created, or
  truncated when it existed).
\<close>

theorem saveImage_unsupported_extension:
  assumes "ToLower (Ext path) \<notin> {''.png'', ''.jpg'', ''.jpeg'', ''''}"
  shows "snd (saveImage os fs img path quality) \<noteq> None \<and>
         (\<not> mkdirFails os (Dir os path) \<and> \<not> createFails os path \<longrightarrow>
            snd (saveImage os fs img path quality) = Some UnsupportedFormat \<and>
            files (fst (saveImage os fs img path quality)) path = Some [])"
  using assms
  by (auto simp: saveImage_def ensureOutputDir_def MkdirAll_def Create_def Let_def
      split: prod.splits option.splits if_splits)

text \<open>
  The theorem for the path \<open>out.GIF\<close> on an empty file system: the error is the one for an
  unsupported format, and the empty file is there.
\<close>

theorem saveImage_unsupported_extension_witness:
  "ToLower (Ext ''out.GIF'') \<notin> {''.png'', ''.jpg'', ''.jpeg'', ''''} \<and>
   \<not> mkdirFails plainOS (Dir plainOS ''out.GIF'') \<and> \<not> createFails plainOS ''out.GIF'' \<and>
   snd (saveImage plainOS emptyFS () ''out.GIF'' 90) = Some UnsupportedFormat \<and>
   files (fst (saveImage plainOS emptyFS () ''out.GIF'' 90)) ''out.GIF'' = Some []"
proof -
  have ext: "ToLower (Ext ''out.GIF'') \<notin> {''.png'', ''.jpg'', ''.jpeg'', ''''}"
    by code_simp
  have os: "\<not> mkdirFails plainOS (Dir plainOS ''out.GIF'') \<and> \<not> createFails plainOS ''out.GIF''"
    by (simp add: plainOS_def)
  from saveImage_unsupported_extension [OF ext, of plainOS emptyFS "()" 90] os ext
  show ?thesis by blast
qed

text \<open>
  Claim C9 as it is written does not hold: it says that the file system is unchanged when
  saving fails. Saving to \<open>out.gif\<close> on an empty file system fails with the error for an
  unsupported format, and afterwards the file \<open>out.gif\<close> exists (and is empty).
\<close>

theorem saveImage_leaves_file_counterexample:
  "snd (saveImage plainOS emptyFS () ''out.gif'' 90) = Some UnsupportedFormat \<and>
   files emptyFS ''out.gif'' = None \<and>
   files (fst (saveImage plainOS emptyFS () ''out.gif'' 90)) ''out.gif'' = Some []"
  by (simp add: saveImage_def ensureOutputDir_def Create_def plainOS_def emptyFS_def
      Ext_def ToLower_def lowerByte_def)

section \<open>The grid compositor\<close>

































section \<open>Rounding to \<open>float64\<close>: the facts used below\<close>

lemma pow2_power_int: "pow2 e = power_int 2 e"
  by (simp add: pow2_def power_int_def inverse_eq_divide power_one_over)

lemma pow2_pos [simp]: "0 < pow2 e"
  by (simp add: pow2_power_int)

lemma pow2_add: "pow2 (a + b) = pow2 a * pow2 b"
  by (simp add: pow2_power_int power_int_add)

lemma pow2_mono: "a \<le> b \<Longrightarrow> pow2 a \<le> pow2 b"
  by (simp add: pow2_power_int power_int_increasing)

lemma pow2_minus: "pow2 (- e) = 1 / pow2 e"
  by (simp add: pow2_power_int power_int_minus inverse_eq_divide)

lemma pow2_nat: "pow2 (int n) = 2 ^ n"
  by (simp add: pow2_def)

lemma pow2_0 [simp]: "pow2 0 = 1"
  by (simp add: pow2_def)

lemma pow2_Suc: "pow2 (e + 1) = 2 * pow2 e"
  using pow2_add [of e 1] by (simp add: pow2_def)

lemma bits_nonneg: "0 \<le> bits n"
  by (induction n rule: bits.induct) (subst bits.simps, simp)

lemma bits_pos: "0 < n \<Longrightarrow> 1 \<le> bits n"
  using bits_nonneg [of "n div 2"] by (subst bits.simps) simp

lemma bits_bounds: "0 < n \<Longrightarrow> 2 ^ nat (bits n - 1) \<le> n \<and> n < 2 ^ nat (bits n)"
proof (induction n rule: bits.induct)
  case (1 n)
  show ?case
  proof (cases "n = 1")
    case True
    have "bits 1 = 1" by (simp add: bits.simps [of 1] bits.simps [of 0])
    with True show ?thesis by simp
  next
    case False
    with 1(2) have h: "0 < n div 2" by simp
    with 1 have IH: "2 ^ nat (bits (n div 2) - 1) \<le> n div 2" "n div 2 < 2 ^ nat (bits (n div 2))"
      by simp_all
    have b: "bits n = 1 + bits (n div 2)" using 1(2) by (subst bits.simps) simp
    have p: "1 \<le> bits (n div 2)" using h by (rule bits_pos)
    then have e1: "nat (bits n - 1) = Suc (nat (bits (n div 2) - 1))"
      and e2: "nat (bits n) = Suc (nat (bits (n div 2)))"
      unfolding b by simp_all
    from IH show ?thesis unfolding e1 e2 by simp linarith
  qed
qed

lemma bits_bounds_pow2:
  assumes "0 < n"
  shows "pow2 (bits n - 1) \<le> of_int n" "of_int n + 1 \<le> pow2 (bits n)"
proof -
  from bits_bounds [OF assms] have a: "2 ^ nat (bits n - 1) \<le> n" and b: "n + 1 \<le> 2 ^ nat (bits n)"
    by simp_all
  have p: "1 \<le> bits n" using assms by (rule bits_pos)
  have "pow2 (bits n - 1) = of_int (2 ^ nat (bits n - 1))"
    using p by (simp add: pow2_def)
  also have "\<dots> \<le> of_int n" using a by (simp only: of_int_le_iff)
  finally show "pow2 (bits n - 1) \<le> of_int n" .
  have "(of_int n :: rat) + 1 = of_int (n + 1)" by simp
  also have "\<dots> \<le> of_int (2 ^ nat (bits n))" using b by (simp only: of_int_le_iff)
  also have "\<dots> = pow2 (bits n)" using p by (simp add: pow2_def)
  finally show "of_int n + 1 \<le> pow2 (bits n)" .
qed

lemma ilog2_bounds:
  assumes "0 < x"
  shows "pow2 (ilog2 x) \<le> x" "x < pow2 (ilog2 x + 1)"
proof -
  have "pow2 (ilog2 x) \<le> x \<and> x < pow2 (ilog2 x + 1)"
  proof (cases "1 \<le> x")
    case True
    define n where "n = \<lfloor>x\<rfloor>"
    have n: "0 < n" using True by (simp add: n_def)
    have e: "ilog2 x = bits n - 1" using True by (simp add: ilog2_def n_def)
    have "of_int n \<le> x" "x < of_int n + 1" using floor_correct [of x] by (simp_all add: n_def)
    with bits_bounds_pow2 [OF n] show ?thesis unfolding e by simp
  next
    case False
    define k where "k = \<lceil>1 / x\<rceil>"
    define m where "m = k - 1"
    have "1 < 1 / x" using False assms by simp
    then have "1 < k" unfolding k_def by (simp add: less_ceiling_iff)
    then have m: "0 < m" by (simp add: m_def)
    have e: "ilog2 x = - bits m" using False by (simp add: ilog2_def k_def m_def)
    have k1: "1 / x \<le> of_int m + 1" and k2: "of_int m < 1 / x"
      using ceiling_correct [of "1 / x"] unfolding m_def k_def by simp_all
    note b = bits_bounds_pow2 [OF m]
    have p: "pow2 (- bits m) = 1 / pow2 (bits m)" by (rule pow2_minus)
    have p': "pow2 (- bits m + 1) = 1 / pow2 (bits m - 1)"
      using pow2_minus [of "bits m - 1"] by simp
    have "1 / x \<le> pow2 (bits m)" using k1 b(2) by linarith
    then have l: "1 / pow2 (bits m) \<le> x" using assms
      by (simp add: field_simps)
    have "pow2 (bits m - 1) < 1 / x" using k2 b(1) by linarith
    then have "x < 1 / pow2 (bits m - 1)" using assms
      by (simp add: field_simps)
    with l show ?thesis unfolding e p p' by simp
  qed
  then show "pow2 (ilog2 x) \<le> x" "x < pow2 (ilog2 x + 1)" by simp_all
qed

lemma roundEven_error: "\<bar>of_int (roundEven y) - y\<bar> \<le> 1 / 2"
proof -
  have "of_int \<lfloor>y\<rfloor> \<le> y" "y < of_int \<lfloor>y\<rfloor> + 1" using floor_correct [of y] by simp_all
  then show ?thesis unfolding roundEven_def Let_def by (auto simp: abs_le_iff) 
qed

lemma roundEven_of_int [simp]: "roundEven (of_int n) = n"
  by (simp add: roundEven_def)

lemma roundEven_le: "y \<le> of_int n \<Longrightarrow> roundEven y \<le> n"
proof -
  assume a: "y \<le> of_int n"
  then have f: "\<lfloor>y\<rfloor> \<le> n" by (simp add: floor_le_iff) 
  show ?thesis
  proof (cases "\<lfloor>y\<rfloor> = n")
    case True
    with a have "y = of_int n" using of_int_floor_le [of y] by simp
    then show ?thesis by simp
  next
    case False
    with f have "\<lfloor>y\<rfloor> + 1 \<le> n" by simp
    then show ?thesis unfolding roundEven_def Let_def by auto
  qed
qed

lemma roundEven_ge: "of_int n \<le> y \<Longrightarrow> n \<le> roundEven y"
proof -
  assume a: "of_int n \<le> y"
  then have f: "n \<le> \<lfloor>y\<rfloor>" by (simp add: le_floor_iff) 
  then show ?thesis unfolding roundEven_def Let_def by auto
qed


lemma pow2_less: "a < b \<Longrightarrow> pow2 a < pow2 b"
  by (simp add: pow2_power_int power_int_strict_increasing)

lemma pow2_le_imp: "pow2 a \<le> pow2 b \<Longrightarrow> a \<le> b"
  using pow2_less [of b a] by (cases "a \<le> b") simp_all

lemma pow2_less_imp: "pow2 a < pow2 b \<Longrightarrow> a < b"
  using pow2_mono [of b a] by (cases "a < b") simp_all

lemma pow2_nonzero [simp]: "pow2 e \<noteq> 0"
  by (rule less_imp_neq [symmetric]) (rule pow2_pos)

lemma pow2_nonneg [simp]: "0 \<le> pow2 e"
  by (rule less_imp_le) (rule pow2_pos)

lemma pow2_split53: "pow2 (e + 1) = pow2 (e - 52) * 2 ^ 53"
proof -
  have "pow2 (e + 1) = pow2 ((e - 52) + 53)" by (simp add: algebra_simps)
  also have "\<dots> = pow2 (e - 52) * pow2 53" by (rule pow2_add)
  finally show ?thesis by (simp add: pow2_def)
qed

lemma pow2_diff: "pow2 (a - b) = pow2 a / pow2 b"
  using pow2_add [of "a - b" b] by (simp add: field_simps)

lemma pow2_53: "pow2 53 = 2 ^ 53"
  by (simp add: pow2_def)

lemma MaxFloat64_less: "MaxFloat64 < pow2 1024"
proof -
  have "MaxFloat64 < 2 ^ 53 * pow2 971"
    unfolding MaxFloat64_def by (intro mult_strict_right_mono) simp_all
  also have "\<dots> = pow2 1024" using pow2_add [of 53 971] by (simp add: pow2_53)
  finally show ?thesis .
qed

text \<open>The rounding step of \<open>fl\<close> for a given exponent.\<close>

lemma fl_unfold:
  assumes "x \<noteq> 0" "max (ilog2 \<bar>x\<bar>) (- 1022) = e"
    "\<bar>of_int (roundEven (x / pow2 (e - 52))) * pow2 (e - 52)\<bar> < pow2 1024"
  shows "fl x = Finite (of_int (roundEven (x / pow2 (e - 52))) * pow2 (e - 52))"
  using assms by (simp add: fl_def Let_def)

lemma fl_pos_normal:
  assumes "pow2 (- 1022) \<le> x" "x \<le> MaxFloat64"
  shows "\<exists>r. fl x = Finite r \<and> \<bar>r - x\<bar> \<le> x * unitRoundoff"
proof -
  have x: "0 < x" using assms(1) pow2_pos [of "- 1022"] by linarith
  define e where "e = ilog2 x"
  define q where "q = pow2 (e - 52)"
  define k where "k = roundEven (x / q)"
  have lo: "pow2 e \<le> x" and hi: "x < pow2 (e + 1)"
    using ilog2_bounds [OF x] by (simp_all add: e_def)
  have "pow2 (- 1022) < pow2 (e + 1)" using assms(1) hi by linarith
  then have e1: "- 1022 \<le> e" using pow2_less_imp [of "- 1022" "e + 1"] by simp
  have "pow2 e < pow2 1024" using lo assms(2) MaxFloat64_less by linarith
  then have e2: "e \<le> 1023" using pow2_less_imp [of e 1024] by simp
  have q: "0 < q" by (simp add: q_def)
  have emax: "max (ilog2 \<bar>x\<bar>) (- 1022) = e" using x e1 by (simp add: e_def)
  have err: "\<bar>of_int k - x / q\<bar> \<le> 1 / 2" unfolding k_def by (rule roundEven_error)
  have "\<bar>of_int k * q - x\<bar> = \<bar>of_int k - x / q\<bar> * q"
  proof -
    have "of_int k * q - x = (of_int k - x / q) * q" using q by (simp add: field_simps)
    then show ?thesis using q by (simp add: abs_mult)
  qed
  also have "\<dots> \<le> 1 / 2 * q" using err q by (intro mult_right_mono) simp_all
  also have "1 / 2 * q = pow2 e / 2 ^ 53"
  proof -
    have "pow2 e = pow2 (e - 52) * pow2 52" using pow2_add [of "e - 52" 52] by simp
    then show ?thesis by (simp add: q_def pow2_def)
  qed
  also have "\<dots> \<le> x / 2 ^ 53" using lo by (simp add: divide_right_mono)
  finally have close: "\<bar>of_int k * q - x\<bar> \<le> x / 2 ^ 53" .
  have kq: "x / q < 2 ^ 53"
  proof -
    have "pow2 (e + 1) = q * 2 ^ 53"
      unfolding q_def by (rule pow2_split53)
    with hi q show ?thesis by (simp add: field_simps)
  qed
  have bound: "of_int k * q < pow2 1024"
  proof (cases "e = 1023")
    case True
    then have qv: "q = pow2 971" by (simp add: q_def)
    have "x / q \<le> of_int (2 ^ 53 - 1)"
      using assms(2) q unfolding MaxFloat64_def qv by (simp add: field_simps)
    then have "k \<le> 2 ^ 53 - 1" unfolding k_def by (rule roundEven_le)
    then have "(of_int k :: rat) \<le> of_int (2 ^ 53 - 1)" by (simp only: of_int_le_iff)
    then have "of_int k * q \<le> MaxFloat64"
      unfolding MaxFloat64_def qv by (intro mult_right_mono) simp_all
    with MaxFloat64_less show ?thesis by linarith
  next
    case False
    with e2 have e3: "e + 1 \<le> 1023" by simp
    have "x / q \<le> of_int (2 ^ 53)" using kq by simp
    then have "k \<le> 2 ^ 53" unfolding k_def by (rule roundEven_le)
    then have "(of_int k :: rat) \<le> of_int (2 ^ 53)" by (simp only: of_int_le_iff)
    then have "of_int k * q \<le> 2 ^ 53 * q" using q by (intro mult_right_mono) simp_all
    also have "\<dots> = pow2 (e + 1)"
      unfolding q_def using pow2_split53 [of e] by simp
    also have "\<dots> \<le> pow2 1023" using e3 by (rule pow2_mono)
    also have "\<dots> < pow2 1024" by (rule pow2_less) simp
    finally show ?thesis .
  qed
  have "0 \<le> x / q" using x q by simp
  then have "of_int 0 \<le> x / q" by simp
  then have "0 \<le> k" unfolding k_def by (rule roundEven_ge)
  then have "0 \<le> of_int k * q" using q by simp
  with bound have "\<bar>of_int k * q\<bar> < pow2 1024" by simp
  with fl_unfold [of x e, OF _ emax] x have "fl x = Finite (of_int k * q)"
    unfolding k_def q_def by simp
  with close show ?thesis by (auto simp: unitRoundoff_def)
qed

text \<open>A value with at most 53 significant bits and an exponent in range is not changed.\<close>

lemma fl_representable:
  assumes "0 < k" "k < 2 ^ 53" "- 1074 \<le> t" "t \<le> 971"
  shows "fl (of_int k * pow2 t) = Finite (of_int k * pow2 t)"
proof -
  define x where "x = (of_int k :: rat) * pow2 t"
  have x: "0 < x" using assms(1) by (simp add: x_def)
  define e where "e = max (ilog2 x) (- 1022)"
  define q where "q = pow2 (e - 52)"
  have q: "0 < q" by (simp add: q_def)
  have "(of_int k :: rat) < of_int (2 ^ 53)" using assms(2) by (simp only: of_int_less_iff)
  then have "x < 2 ^ 53 * pow2 t" unfolding x_def by (intro mult_strict_right_mono) simp_all
  also have "\<dots> = pow2 (t + 53)" using pow2_add [of t 53] by (simp add: pow2_53)
  finally have xt: "x < pow2 (t + 53)" .
  have "pow2 (ilog2 x) < pow2 (t + 53)" using ilog2_bounds(1) [OF x] xt by linarith
  then have "ilog2 x < t + 53" by (rule pow2_less_imp)
  then have et: "e \<le> t + 52" using assms(3) by (simp add: e_def)
  define d where "d = nat (t + 52 - e)"
  have "pow2 t = pow2 (e - 52) * pow2 (t + 52 - e)" using pow2_add [of "e - 52" "t + 52 - e"] by simp
  also have "pow2 (t + 52 - e) = 2 ^ d" using et by (simp add: pow2_def d_def)
  finally have "x / q = of_int k * 2 ^ d" using q by (simp add: x_def q_def)
  then have xq: "x / q = of_int (k * 2 ^ d)" by simp
  have r: "of_int (roundEven (x / q)) * q = x"
    unfolding xq roundEven_of_int using xq q by (simp add: field_simps)
  have "pow2 (t + 53) \<le> pow2 1024" using assms(4) by (intro pow2_mono) simp
  with xt x have "\<bar>x\<bar> < pow2 1024" by simp
  have ax: "\<bar>x\<bar> = x" using x by simp
  have "fl x = Finite (of_int (roundEven (x / pow2 (e - 52))) * pow2 (e - 52))"
  proof (rule fl_unfold)
    show "x \<noteq> 0" using x by simp
    show "max (ilog2 \<bar>x\<bar>) (- 1022) = e" unfolding ax e_def ..
    show "\<bar>of_int (roundEven (x / pow2 (e - 52))) * pow2 (e - 52)\<bar> < pow2 1024"
      using r \<open>\<bar>x\<bar> < pow2 1024\<close> unfolding q_def by simp
  qed
  with r show ?thesis unfolding q_def x_def by simp
qed

lemma float64_exact:
  assumes "0 < n" "n \<le> 2 ^ 53"
  shows "float64 n = Finite (of_int n)"
proof (cases "n = 2 ^ 53")
  case True
  have "fl (of_int 1 * pow2 53) = Finite (of_int 1 * pow2 53)"
    by (rule fl_representable) simp_all
  then show ?thesis using True by (simp add: float64_def pow2_53)
next
  case False
  with assms have "n < 2 ^ 53" by simp
  from fl_representable [OF assms(1) this, of 0] show ?thesis
    by (simp add: float64_def)
qed


text \<open>Relative error bounds, and two roundings in a row.\<close>

lemma rel_bounds:
  fixes x p u :: rat
  assumes "\<bar>p - x\<bar> \<le> x * u"
  shows "p \<le> x * (1 + u)" "x * (1 - u) \<le> p"
proof -
  from assms have a: "p - x \<le> x * u" and b: "- (p - x) \<le> x * u"
    unfolding abs_le_iff by blast+
  from a have "p \<le> x + x * u" by simp
  then show "p \<le> x * (1 + u)" by (simp add: algebra_simps)
  from b have "x - x * u \<le> p" by simp
  then show "x * (1 - u) \<le> p" by (simp add: algebra_simps)
qed

lemma unitRoundoff_bounds: "0 < unitRoundoff" "unitRoundoff < 1"
  "2 ^ 50 * (2 * unitRoundoff + unitRoundoff * unitRoundoff) < 1 / 2"
  by (simp_all add: unitRoundoff_def)

lemma two_roundings_upper:
  fixes M y p :: rat
  assumes "0 \<le> M" "M \<le> 2 ^ 50" "y \<le> M * (1 + unitRoundoff)" "p \<le> y * (1 + unitRoundoff)"
  shows "p < M + 1 / 2"
proof -
  define u where "u = unitRoundoff"
  have u: "0 < u" "2 ^ 50 * (2 * u + u * u) < 1 / 2" using unitRoundoff_bounds by (simp_all add: u_def)
  have "y * (1 + u) \<le> M * (1 + u) * (1 + u)"
    using assms(3) u(1) unfolding u_def [symmetric] by (intro mult_right_mono) simp_all
  moreover have "M * (1 + u) * (1 + u) = M + M * (2 * u + u * u)" by (simp add: algebra_simps)
  moreover have "M * (2 * u + u * u) \<le> 2 ^ 50 * (2 * u + u * u)"
    using assms(2) u(1) by (intro mult_right_mono) simp_all
  ultimately show ?thesis using assms(4) u(2) unfolding u_def [symmetric] by linarith
qed

lemma two_roundings_lower:
  fixes M y p :: rat
  assumes "0 \<le> M" "M \<le> 2 ^ 50" "M * (1 - unitRoundoff) \<le> y" "y * (1 - unitRoundoff) \<le> p"
  shows "M - 1 / 2 < p"
proof -
  define u where "u = unitRoundoff"
  have u: "0 < u" "u < 1" "2 ^ 50 * (2 * u + u * u) < 1 / 2"
    using unitRoundoff_bounds by (simp_all add: u_def)
  have "M * (1 - u) * (1 - u) \<le> y * (1 - u)"
    using assms(3) u(2) unfolding u_def [symmetric] by (intro mult_right_mono) simp_all
  moreover have "M * (1 - u) * (1 - u) = M - M * (2 * u + u * u) + 2 * (M * (u * u))"
    by (simp add: algebra_simps)
  moreover have "M * (2 * u + u * u) \<le> 2 ^ 50 * (2 * u + u * u)"
    using assms(2) u(1) by (intro mult_right_mono) simp_all
  moreover have "0 \<le> M * (u * u)" using assms(1) u(1) by simp
  ultimately show ?thesis using assms(4) u(3) unfolding u_def [symmetric] by linarith
qed

lemma roundAway_near:
  assumes "of_int m - 1 / 2 < p" "p < of_int m + 1 / 2" "0 \<le> p"
  shows "roundAway p = m"
proof -
  have "of_int m \<le> p + 1 / 2" "p + 1 / 2 < of_int m + 1" using assms by linarith+
  then have "\<lfloor>p + 1 / 2\<rfloor> = m" by (simp add: floor_unique)
  with assms(3) show ?thesis by (simp add: roundAway_def)
qed

lemma roundAway_upper:
  assumes "p < of_int m + 1 / 2" "0 \<le> p"
  shows "0 \<le> roundAway p" "roundAway p \<le> m"
proof -
  have "p + 1 / 2 < of_int (m + 1)" using assms by simp
  then have "\<lfloor>p + 1 / 2\<rfloor> < m + 1" by (simp only: floor_less_iff)
  moreover have "0 \<le> \<lfloor>p + 1 / 2\<rfloor>" using assms(2) by simp
  ultimately show "0 \<le> roundAway p" "roundAway p \<le> m"
    using assms(2) by (simp_all add: roundAway_def)
qed

lemma roundAway_close:
  assumes "0 \<le> p"
  shows "\<bar>of_int (roundAway p) - p\<bar> \<le> 1 / 2"
proof -
  have "of_int \<lfloor>p + 1 / 2\<rfloor> \<le> p + 1 / 2" "p + 1 / 2 < of_int \<lfloor>p + 1 / 2\<rfloor> + 1"
    using floor_correct [of "p + 1 / 2"] by simp_all
  moreover have "roundAway p = \<lfloor>p + 1 / 2\<rfloor>" using assms by (simp add: roundAway_def)
  ultimately show ?thesis unfolding abs_le_iff by linarith
qed

lemma toInt_of_int:
  assumes "- (2 ^ 63) \<le> n" "n < 2 ^ 63"
  shows "toInt (Finite (of_int n)) = Some n"
proof -
  have "truncToInt (of_int n) = n" by (simp add: truncToInt_def)
  with assms show ?thesis by simp
qed

text \<open>The quotient of two converted sizes.\<close>

lemma fdiv_sizes:
  assumes "0 < m" "m \<le> 2 ^ 53" "0 < n" "n \<le> 2 ^ 53"
  shows "\<exists>r. fdiv (float64 m) (float64 n) = Finite r \<and>
           \<bar>r - of_int m / of_int n\<bar> \<le> (of_int m / of_int n) * unitRoundoff \<and>
           1 / 2 ^ 54 \<le> r"
proof -
  define M where "M = (of_int m :: rat)"
  define N where "N = (of_int n :: rat)"
  have M: "1 \<le> M" "M \<le> 2 ^ 53" and N: "1 \<le> N" "N \<le> 2 ^ 53"
    using assms unfolding M_def N_def
    by (simp_all add: of_int_le_numeral_power_cancel_iff)
  have fm: "float64 m = Finite M" unfolding M_def using assms(1,2) by (intro float64_exact) simp_all
  have fn: "float64 n = Finite N" unfolding N_def using assms(3,4) by (intro float64_exact) simp_all
  have lo: "pow2 (- 1022) \<le> M / N"
  proof -
    have "pow2 (- 1022) \<le> pow2 (- 53)" by (intro pow2_mono) simp
    also have "\<dots> = 1 / 2 ^ 53" by (simp add: pow2_def)
    also have "\<dots> \<le> 1 / N" using N by (simp add: field_simps)
    also have "\<dots> \<le> M / N" using M N by (simp add: divide_right_mono)
    finally show ?thesis .
  qed
  have hi: "M / N \<le> MaxFloat64"
  proof -
    have "M / N \<le> M" using M N by (simp add: field_simps)
    also have "\<dots> \<le> 2 ^ 53" by (rule M(2))
    also have "\<dots> \<le> (2 ^ 53 - 1) * pow2 1" by (simp add: pow2_def)
    also have "\<dots> \<le> MaxFloat64" unfolding MaxFloat64_def
      by (intro mult_left_mono pow2_mono) simp_all
    finally show ?thesis .
  qed
  from fl_pos_normal [OF lo hi] obtain r where r: "fl (M / N) = Finite r" "\<bar>r - M / N\<bar> \<le> M / N * unitRoundoff"
    by blast
  have "1 / 2 ^ 53 \<le> M / N"
  proof -
    have "(1 :: rat) / 2 ^ 53 \<le> 1 / N" using N by (simp add: field_simps)
    also have "\<dots> \<le> M / N" using M N by (simp add: divide_right_mono)
    finally show ?thesis .
  qed
  then have "1 / 2 ^ 53 * (1 - unitRoundoff) \<le> M / N * (1 - unitRoundoff)"
    using unitRoundoff_bounds(2) by (intro mult_right_mono) simp_all
  moreover have "M / N * (1 - unitRoundoff) \<le> r" using rel_bounds(2) [OF r(2)] .
  moreover have "(1 :: rat) / 2 ^ 54 \<le> 1 / 2 ^ 53 * (1 - unitRoundoff)"
    by (simp add: unitRoundoff_def)
  ultimately have "1 / 2 ^ 54 \<le> r" by linarith
  moreover have "fdiv (float64 m) (float64 n) = Finite r"
    using N r(1) by (simp add: fm fn)
  ultimately show ?thesis using r(2) unfolding M_def N_def by blast
qed

text \<open>Evaluating the operations on numerals.\<close>

lemma floor_rat_numeral [simp]: "\<lfloor>(numeral a :: rat) / numeral b\<rfloor> = numeral a div numeral b"
  by (metis floor_divide_of_int_eq of_int_numeral)
lemma ceiling_rat_numeral [simp]: "\<lceil>(numeral a :: rat) / numeral b\<rceil> = - ((- numeral a) div numeral b)"
  by (metis ceiling_divide_eq_div of_int_numeral)
lemmas fl_eval = fl_def float64_def ilog2_def bits.simps pow2_def roundEven_def roundAway_def truncToInt_def Let_def

section \<open>The timestamp sampler: the values\<close>

lemma fillTimestamps_loop:
  "0 \<le> i \<Longrightarrow> i \<le> count \<Longrightarrow> length ts = nat count \<Longrightarrow>
   fillTimestamps interval count i ts =
     take (nat i) ts @ map (\<lambda>k. fmul interval (float64 k)) [i + 1..count]"
proof (induction interval count i ts rule: fillTimestamps.induct)
  case (1 interval count i ts)
  show ?case
  proof (cases "i < count")
    case False
    with 1(3,4) have "i = count" "nat i = length ts" by simp_all
    then show ?thesis by (subst fillTimestamps.simps) simp
  next
    case True
    let ?v = "fmul interval (float64 (i + 1))"
    have len: "nat i < length ts" using True 1(2,4) by simp
    have "fillTimestamps interval count i ts = fillTimestamps interval count (i + 1) (ts[nat i := ?v])"
      using True by (subst fillTimestamps.simps) simp
    also have "\<dots> = take (nat (i + 1)) (ts[nat i := ?v]) @
        map (\<lambda>k. fmul interval (float64 k)) [i + 1 + 1..count]"
      using True 1(2,4) by (intro 1(1)) simp_all
    also have "take (nat (i + 1)) (ts[nat i := ?v]) = take (nat i) ts @ [?v]"
    proof -
      have "nat (i + 1) = Suc (nat i)" using 1(2) by simp
      then show ?thesis using len by (simp add: take_Suc_conv_app_nth)
    qed
    also have "(take (nat i) ts @ [?v]) @ map (\<lambda>k. fmul interval (float64 k)) [i + 1 + 1..count] =
        take (nat i) ts @ map (\<lambda>k. fmul interval (float64 k)) [i + 1..count]"
      using True by (simp add: upto_rec1 [of "i + 1" count])
    finally show ?thesis .
  qed
qed

text \<open>
  Claim C1. For every count of at least 1 (and every duration, positive or not),
  \<open>sampleTimestamps\<close> returns \<open>[duration / 2]\<close> when the count is 1, and otherwise the
  \<open>count\<close> values \<open>interval * 1\<close>, \<open>interval * 2\<close>, ..., \<open>interval * count\<close> with
  \<open>interval = duration / (count + 1)\<close>; the quotient and the products are those of
  \<open>float64\<close>.
\<close>

theorem sampleTimestamps_values:
  assumes "1 \<le> count"
  shows "sampleTimestamps duration count =
     (if count = 1 then [fdiv duration (Finite 2)]
      else map (\<lambda>k. fmul (fdiv duration (float64 (count + 1))) (float64 k)) [1..count])"
proof (cases "count = 1")
  case True
  then show ?thesis by (simp add: sampleTimestamps_def)
next
  case False
  with assms have "0 \<le> (0::int)" "0 \<le> count" "length (replicate (nat count) (Finite 0)) = nat count"
    by simp_all
  from fillTimestamps_loop [OF this] False assms show ?thesis
    by (simp add: sampleTimestamps_def Let_def)
qed

text \<open>The theorem at a duration of 8 seconds: three samples at 2, 4 and 6; one sample at 4.\<close>

theorem sampleTimestamps_values_witness:
  "(1::int) \<le> 3 \<and> sampleTimestamps (Finite 8) 3 = [Finite 2, Finite 4, Finite 6] \<and>
   (1::int) \<le> 1 \<and> sampleTimestamps (Finite 8) 1 = [Finite 4]"
proof -
  have "sampleTimestamps (Finite 8) 3 =
      map (\<lambda>k. fmul (fdiv (Finite 8) (float64 (3 + 1))) (float64 k)) [1..3]"
    using sampleTimestamps_values [of 3 "Finite 8"] by simp
  also have "[1..3::int] = [1, 2, 3]" by (simp add: upto_rec1)
  also have "map (\<lambda>k. fmul (fdiv (Finite 8) (float64 (3 + 1))) (float64 k)) [1, 2, 3] =
      [Finite 2, Finite 4, Finite 6]"
    by (simp add: fl_eval)
  finally have a: "sampleTimestamps (Finite 8) 3 = [Finite 2, Finite 4, Finite 6]" .
  have "sampleTimestamps (Finite 8) 1 = [fdiv (Finite 8) (Finite 2)]"
    using sampleTimestamps_values [of 1 "Finite 8"] by simp
  also have "\<dots> = [Finite 4]" by (simp add: fl_eval)
  finally show ?thesis using a by simp
qed


section \<open>The timestamp sampler: order, range and spacing\<close>

lemma sampleTimestamps_many:
  assumes "2 \<le> count"
  shows "sampleTimestamps duration count =
     map (\<lambda>k. fmul (fdiv duration (float64 (count + 1))) (float64 k)) [1..count]"
proof -
  from assms have "0 \<le> (0::int)" "0 \<le> count" "length (replicate (nat count) (Finite 0)) = nat count"
    by simp_all
  from fillTimestamps_loop [OF this] assms show ?thesis
    by (simp add: sampleTimestamps_def Let_def)
qed

text \<open>The interval and one sample, in the normal range.\<close>

lemma sample_interval:
  assumes n: "2 \<le> n" "n < 2 ^ 50"
    and d: "pow2 (- 1021) * of_int (n + 1) \<le> d" "d \<le> MaxFloat64"
  shows "\<exists>iv. fdiv (Finite d) (float64 (n + 1)) = Finite iv \<and>
           \<bar>iv - d / of_int (n + 1)\<bar> \<le> d / of_int (n + 1) * unitRoundoff \<and>
           pow2 (- 1022) \<le> iv"
proof -
  define C where "C = (of_int (n + 1) :: rat)"
  have C: "3 \<le> C" using n(1) by (simp add: C_def)
  have fc: "float64 (n + 1) = Finite C" unfolding C_def using n by (intro float64_exact) simp_all
  have lo1: "pow2 (- 1021) \<le> d / C" using d(1) C unfolding C_def [symmetric]
    by (simp add: field_simps)
  have "pow2 (- 1022) \<le> pow2 (- 1021)" by (intro pow2_mono) simp
  with lo1 have lo: "pow2 (- 1022) \<le> d / C" by simp
  have dpos: "0 < d / C" using lo1 pow2_pos [of "- 1021"] by linarith
  then have d0: "0 < d" using C by (simp add: zero_less_divide_iff)
  have "d / C \<le> d" using C d0 by (simp add: field_simps)
  with d(2) have hi: "d / C \<le> MaxFloat64" by simp
  from fl_pos_normal [OF lo hi] obtain iv where iv: "fl (d / C) = Finite iv"
    "\<bar>iv - d / C\<bar> \<le> d / C * unitRoundoff"
    by blast
  have "pow2 (- 1021) * (1 - unitRoundoff) \<le> d / C * (1 - unitRoundoff)"
    using lo1 unitRoundoff_bounds(2) by (intro mult_right_mono) simp_all
  moreover have "d / C * (1 - unitRoundoff) \<le> iv" using rel_bounds(2) [OF iv(2)] .
  moreover have "pow2 (- 1022) \<le> pow2 (- 1021) * (1 - unitRoundoff)"
  proof -
    have "pow2 (- 1021) = 2 * pow2 (- 1022)" using pow2_Suc [of "- 1022"] by simp
    moreover have "(1 :: rat) / 2 \<le> 1 - unitRoundoff" by (simp add: unitRoundoff_def)
    then have "pow2 (- 1022) * 2 * (1 / 2) \<le> pow2 (- 1022) * 2 * (1 - unitRoundoff)"
      by (intro mult_left_mono) simp_all
    ultimately show ?thesis by (simp add: mult.commute)
  qed
  ultimately have "pow2 (- 1022) \<le> iv" by linarith
  moreover have "fdiv (Finite d) (float64 (n + 1)) = Finite iv"
    using C iv(1) by (simp add: fc)
  ultimately show ?thesis using iv(2) unfolding C_def by blast
qed

lemma sample_point:
  assumes n: "2 \<le> n" "n < 2 ^ 50"
    and d: "0 < d" "d \<le> MaxFloat64"
    and iv: "\<bar>iv - d / of_int (n + 1)\<bar> \<le> d / of_int (n + 1) * unitRoundoff" "pow2 (- 1022) \<le> iv"
    and m: "1 \<le> m" "m \<le> n"
  shows "\<exists>t. fmul (Finite iv) (float64 m) = Finite t \<and>
           \<bar>t - iv * of_int m\<bar> \<le> iv * of_int m * unitRoundoff \<and> 0 < t \<and> t < d"
proof -
  define u where "u = unitRoundoff"
  define C where "C = (of_int (n + 1) :: rat)"
  define M where "M = (of_int m :: rat)"
  have u: "0 < u" "u < 1" "2 ^ 50 * (2 * u + u * u) < 1 / 2"
    using unitRoundoff_bounds by (simp_all add: u_def)
  have M: "1 \<le> M" "M + 1 \<le> C" "M \<le> 2 ^ 50"
  proof -
    show "1 \<le> M" using m(1) by (simp add: M_def)
    have "m + 1 \<le> n + 1" using m(2) by simp
    then have "(of_int (m + 1) :: rat) \<le> of_int (n + 1)" by (simp only: of_int_le_iff)
    then show "M + 1 \<le> C" by (simp add: M_def C_def)
    have "m \<le> 2 ^ 50" using m(2) n(2) by simp
    then have "(of_int m :: rat) \<le> of_int (2 ^ 50)" by (simp only: of_int_le_iff)
    then show "M \<le> 2 ^ 50" by (simp add: M_def)
  qed
  have C: "0 < C" using M by linarith
  have fm: "float64 m = Finite M" unfolding M_def using m n by (intro float64_exact) simp_all
  have ivpos: "0 < iv" using iv(2) pow2_pos [of "- 1022"] by linarith
  note ib = rel_bounds [OF iv(1) [folded C_def u_def]]
  have sq: "M * ((1 + u) * (1 + u)) < C"
  proof -
    have "M * ((1 + u) * (1 + u)) = M + M * (2 * u + u * u)" by (simp add: algebra_simps)
    moreover have "M * (2 * u + u * u) \<le> 2 ^ 50 * (2 * u + u * u)"
      using M(3) u(1) by (intro mult_right_mono) simp_all
    ultimately show ?thesis using u(3) M(2) by linarith
  qed
  have dC: "0 < d / C" using d(1) C by simp
  have x_hi: "iv * M * (1 + u) < d"
  proof -
    have "iv * M * (1 + u) \<le> (d / C * (1 + u)) * M * (1 + u)"
      using ib(1) M(1) u(1) by (intro mult_right_mono) simp_all
    also have "\<dots> = d / C * (M * ((1 + u) * (1 + u)))" by (simp only: mult_ac)
    also have "\<dots> < d / C * C" using sq dC by (intro mult_strict_left_mono)
    also have "\<dots> = d" using C by simp
    finally show ?thesis .
  qed
  have lo: "pow2 (- 1022) \<le> iv * M"
  proof -
    have "iv * 1 \<le> iv * M" using M(1) ivpos by (intro mult_left_mono) simp_all
    with iv(2) show ?thesis by simp
  qed
  have hi: "iv * M \<le> MaxFloat64"
  proof -
    have "iv * M * 1 \<le> iv * M * (1 + u)" using ivpos M(1) u(1) by (intro mult_left_mono) simp_all
    with x_hi d(2) show ?thesis by simp
  qed
  from fl_pos_normal [OF lo hi] obtain t where t: "fl (iv * M) = Finite t"
    "\<bar>t - iv * M\<bar> \<le> iv * M * unitRoundoff"
    by blast
  note tb = rel_bounds [OF t(2) [folded u_def]]
  have "0 < iv * M * (1 - u)" using ivpos M(1) u(2) by (intro mult_pos_pos) simp_all
  with tb(2) have tpos: "0 < t" by linarith
  have "t < d" using tb(1) x_hi by linarith
  moreover have "fmul (Finite iv) (float64 m) = Finite t" by (simp add: fm t(1))
  ultimately show ?thesis using t(2) tpos unfolding M_def by blast
qed

text \<open>Two neighbouring samples.\<close>

lemma sample_step:
  fixes iv t t' M u :: rat
  assumes "0 < iv" "0 \<le> M" "M \<le> 2 ^ 50" "0 < u" "2 ^ 50 * (2 * u + u * u) < 1 / 2"
    and "\<bar>t - iv * M\<bar> \<le> iv * M * u" "\<bar>t' - iv * (M + 1)\<bar> \<le> iv * (M + 1) * u"
  shows "t < t'" "\<bar>(t' - t) - iv\<bar> \<le> iv * (2 * M + 1) * u"
proof -
  define A where "A = iv * M"
  define E where "E = A * u"
  define F where "F = iv * u"
  have e1: "\<bar>t - A\<bar> \<le> E" using assms(6) by (simp add: A_def E_def)
  have "iv * (M + 1) = A + iv" "iv * (M + 1) * u = E + F"
    by (simp_all add: A_def E_def F_def algebra_simps)
  with assms(7) have e2: "\<bar>t' - (A + iv)\<bar> \<le> E + F" by simp
  have b: "iv * (2 * M + 1) * u = 2 * E + F" by (simp add: A_def E_def F_def algebra_simps)
  from e1 e2 show "\<bar>(t' - t) - iv\<bar> \<le> iv * (2 * M + 1) * u"
    unfolding b abs_le_iff by linarith
  have "(2 * M + 1) * u < 1"
  proof -
    have "M * (2 * u) \<le> 2 ^ 50 * (2 * u)" using assms(3,4) by (intro mult_right_mono) simp_all
    moreover have "(2 :: rat) ^ 50 * (2 * u) + 2 ^ 50 * (u * u) < 1 / 2"
      using assms(5) by (simp add: algebra_simps)
    moreover have "0 \<le> (2 :: rat) ^ 50 * (u * u)" using assms(4) by simp
    moreover have "u \<le> 2 ^ 50 * (2 * u)" using assms(4) by simp
    moreover have "(2 * M + 1) * u = M * (2 * u) + u" by (simp add: algebra_simps)
    ultimately show ?thesis by linarith
  qed
  then have "iv * ((2 * M + 1) * u) < iv * 1" using assms(1) by (intro mult_strict_left_mono)
  then have "2 * E + F < iv" using b by (simp add: mult.assoc)
  with e1 e2 show "t < t'" unfolding abs_le_iff by linarith
qed


text \<open>
  Claim C5, as the code has it. For a count from 2 to below \<open>2^50\<close> and a finite duration
  with \<open>duration / (count + 1)\<close> at least \<open>2^-1021\<close> (so that no value is subnormal), the
  sampler returns exactly \<open>count\<close> finite values, every one strictly between 0 and the
  duration, strictly increasing. The difference of two neighbours is the interval only
  up to rounding: with \<open>iv\<close> the \<open>float64\<close> quotient \<open>duration / (count + 1)\<close>, itself
  within the relative error \<open>2^-53\<close> of the exact quotient, the difference of the samples
  \<open>k\<close> and \<open>k + 1\<close> is within \<open>(2 k + 3) * 2^-53 * iv\<close> of \<open>iv\<close>.
\<close>

theorem sampleTimestamps_spacing:
  assumes "2 \<le> count" "count < 2 ^ 50"
    and "pow2 (- 1021) * of_int (count + 1) \<le> d" "d \<le> MaxFloat64"
  shows "\<exists>iv ts.
     fdiv (Finite d) (float64 (count + 1)) = Finite iv \<and>
     \<bar>iv - d / of_int (count + 1)\<bar> \<le> d / of_int (count + 1) * unitRoundoff \<and>
     sampleTimestamps (Finite d) count = map Finite ts \<and>
     length ts = nat count \<and>
     (\<forall>k<length ts. 0 < ts ! k \<and> ts ! k < d) \<and>
     (\<forall>k. Suc k < length ts \<longrightarrow>
        ts ! k < ts ! Suc k \<and>
        \<bar>(ts ! Suc k - ts ! k) - iv\<bar> \<le> iv * (2 * of_nat k + 3) * unitRoundoff)"
proof -
  from sample_interval [OF assms] obtain iv where
    iv: "fdiv (Finite d) (float64 (count + 1)) = Finite iv"
      "\<bar>iv - d / of_int (count + 1)\<bar> \<le> d / of_int (count + 1) * unitRoundoff"
      "pow2 (- 1022) \<le> iv"
    by blast
  have ivpos: "0 < iv" using iv(3) pow2_pos [of "- 1022"] by linarith
  have dpos: "0 < d"
  proof -
    have "0 < pow2 (- 1021) * of_int (count + 1)" using assms(1) by (intro mult_pos_pos) simp_all
    with assms(3) show ?thesis by linarith
  qed
  define val where "val = (\<lambda>f. case f of Finite r \<Rightarrow> r | _ \<Rightarrow> (0 :: rat))"
  define t where "t = (\<lambda>m. val (fmul (Finite iv) (float64 m)))"
  have pt: "fmul (Finite iv) (float64 m) = Finite (t m) \<and>
      \<bar>t m - iv * of_int m\<bar> \<le> iv * of_int m * unitRoundoff \<and> 0 < t m \<and> t m < d"
    if "1 \<le> m" "m \<le> count" for m
  proof -
    from sample_point [OF assms(1,2) dpos assms(4) iv(2,3) that] obtain r where
      r: "fmul (Finite iv) (float64 m) = Finite r"
        "\<bar>r - iv * of_int m\<bar> \<le> iv * of_int m * unitRoundoff" "0 < r" "r < d"
      by blast
    from r(1) have "t m = r" by (simp add: t_def val_def)
    with r show ?thesis by simp
  qed
  define ts where "ts = map t [1..count]"
  have len: "length ts = nat count" by (simp add: ts_def)
  have nth: "ts ! k = t (1 + int k)" if "k < nat count" for k
    using that by (simp add: ts_def)
  have "sampleTimestamps (Finite d) count =
      map (\<lambda>k. fmul (Finite iv) (float64 k)) [1..count]"
    using sampleTimestamps_many [OF assms(1), of "Finite d"] by (simp add: iv(1))
  also have "\<dots> = map (\<lambda>k. Finite (t k)) [1..count]"
    by (rule map_cong) (simp_all add: pt)
  also have "\<dots> = map Finite ts" by (simp add: ts_def)
  finally have eq: "sampleTimestamps (Finite d) count = map Finite ts" .
  have range: "\<forall>k<length ts. 0 < ts ! k \<and> ts ! k < d"
  proof (intro allI impI)
    fix k assume "k < length ts"
    then have k: "k < nat count" by (simp add: len)
    then have "1 \<le> 1 + int k" "1 + int k \<le> count" by simp_all
    from pt [OF this] nth [OF k] show "0 < ts ! k \<and> ts ! k < d" by simp
  qed
  have step: "\<forall>k. Suc k < length ts \<longrightarrow>
        ts ! k < ts ! Suc k \<and>
        \<bar>(ts ! Suc k - ts ! k) - iv\<bar> \<le> iv * (2 * of_nat k + 3) * unitRoundoff"
  proof (intro allI impI)
    fix k assume "Suc k < length ts"
    then have k: "k < nat count" "Suc k < nat count" by (simp_all add: len)
    define m where "m = 1 + int k"
    have m: "1 \<le> m" "m \<le> count" "1 \<le> m + 1" "m + 1 \<le> count" using k by (simp_all add: m_def)
    have s: "1 + int (Suc k) = m + 1" by (simp add: m_def)
    note a = pt [OF m(1,2)]
    note b = pt [OF m(3,4)]
    have M: "(0 :: rat) \<le> of_int m" "(of_int m :: rat) \<le> 2 ^ 50"
    proof -
      show "(0 :: rat) \<le> of_int m" using m(1) by simp
      have "m \<le> 2 ^ 50" using m(2) assms(2) by simp
      then have "(of_int m :: rat) \<le> of_int (2 ^ 50)" by (simp only: of_int_le_iff)
      then show "(of_int m :: rat) \<le> 2 ^ 50" by simp
    qed
    have b': "\<bar>t (m + 1) - iv * (of_int m + 1)\<bar> \<le> iv * (of_int m + 1) * unitRoundoff"
      using b by simp
    from sample_step [OF ivpos M unitRoundoff_bounds(1,3) a [THEN conjunct2, THEN conjunct1] b']
    have "t m < t (m + 1)"
      "\<bar>t (m + 1) - t m - iv\<bar> \<le> iv * (2 * of_int m + 1) * unitRoundoff"
      by simp_all
    moreover have "(2 * of_int m + 1 :: rat) = 2 * of_nat k + 3" by (simp add: m_def)
    ultimately show "ts ! k < ts ! Suc k \<and>
        \<bar>(ts ! Suc k - ts ! k) - iv\<bar> \<le> iv * (2 * of_nat k + 3) * unitRoundoff"
      unfolding nth [OF k(1)] nth [OF k(2)] s m_def [symmetric] by simp
  qed
  from iv(1,2) eq len range step show ?thesis by blast
qed

text \<open>The theorem for a duration of 10 seconds and 9 samples.\<close>

theorem sampleTimestamps_spacing_witness:
  "(2::int) \<le> 9 \<and> (9::int) < 2 ^ 50 \<and> pow2 (- 1021) * of_int (9 + 1) \<le> 10 \<and>
   10 \<le> MaxFloat64 \<and>
   (\<exists>iv ts. fdiv (Finite 10) (float64 (9 + 1)) = Finite iv \<and>
      sampleTimestamps (Finite 10) 9 = map Finite ts \<and> length ts = 9 \<and>
      0 < ts ! 0 \<and> ts ! 8 < 10 \<and> ts ! 0 < ts ! 1 \<and>
      \<bar>(ts ! 1 - ts ! 0) - iv\<bar> \<le> iv * 3 * unitRoundoff)"
proof -
  have c: "(2::int) \<le> 9" "(9::int) < 2 ^ 50" by simp_all
  have lo: "pow2 (- 1021) * of_int (9 + 1) \<le> 10"
  proof -
    have "pow2 (- 1021) \<le> pow2 0" by (intro pow2_mono) simp
    then have "pow2 (- 1021) * 10 \<le> 1 * 10" by (intro mult_right_mono) simp_all
    then show ?thesis by simp
  qed
  have hi: "10 \<le> MaxFloat64"
  proof -
    have "(10 :: rat) \<le> (2 ^ 53 - 1) * pow2 0" by simp
    also have "\<dots> \<le> MaxFloat64" unfolding MaxFloat64_def
      by (intro mult_left_mono pow2_mono) simp_all
    finally show ?thesis .
  qed
  from sampleTimestamps_spacing [OF c lo hi] obtain iv ts where
    r: "fdiv (Finite 10) (float64 (9 + 1)) = Finite iv"
      "sampleTimestamps (Finite 10) 9 = map Finite ts" "length ts = nat 9"
      "\<forall>k<length ts. 0 < ts ! k \<and> ts ! k < 10"
      "\<forall>k. Suc k < length ts \<longrightarrow>
        ts ! k < ts ! Suc k \<and>
        \<bar>(ts ! Suc k - ts ! k) - iv\<bar> \<le> iv * (2 * of_nat k + 3) * unitRoundoff"
    by blast
  from r(3) have l: "length ts = 9" by simp
  from r(4) l have "0 < ts ! 0" "ts ! 8 < 10" by simp_all
  moreover from r(5) [rule_format, of 0] l have "ts ! 0 < ts ! 1"
    "\<bar>(ts ! 1 - ts ! 0) - iv\<bar> \<le> iv * 3 * unitRoundoff"
    by simp_all
  ultimately show ?thesis using c lo hi r(1,2) l by blast
qed


text \<open>
  Claim C5 as it is written does not hold: it says that every difference of neighbours
  is exactly \<open>duration / (count + 1)\<close>. For a duration of 1 second and 4 samples the
  values are \<open>0.2\<close>, \<open>0.4\<close>, \<open>0.6000000000000001\<close> and \<open>0.8\<close> (as \<open>float64\<close>); the
  third minus the second is neither the interval the code computed (the first value) nor
  the exact \<open>1 / 5\<close>.
\<close>

theorem sampleTimestamps_spacing_counterexample:
  "sampleTimestamps (Finite 1) 4 =
     [Finite (3602879701896397 / 18014398509481984), Finite (3602879701896397 / 9007199254740992),
      Finite (1351079888211149 / 2251799813685248), Finite (3602879701896397 / 4503599627370496)] \<and>
   fdiv (Finite 1) (float64 (4 + 1)) = Finite (3602879701896397 / 18014398509481984) \<and>
   (1351079888211149 / 2251799813685248 - 3602879701896397 / 9007199254740992 :: rat) \<noteq>
     3602879701896397 / 18014398509481984 \<and>
   (1351079888211149 / 2251799813685248 - 3602879701896397 / 9007199254740992 :: rat) \<noteq> 1 / (4 + 1)"
proof -
  have "[1..4::int] = [1, 2, 3, 4]" by (simp add: upto_rec1)
  then have "sampleTimestamps (Finite 1) 4 =
      map (\<lambda>k. fmul (fdiv (Finite 1) (float64 (4 + 1))) (float64 k)) [1, 2, 3, 4]"
    using sampleTimestamps_many [of 4 "Finite 1"] by simp
  moreover have i: "fdiv (Finite 1) (float64 (4 + 1)) = Finite (3602879701896397 / 18014398509481984)"
    by (simp add: fl_eval)
  moreover have "map (\<lambda>k. fmul (Finite (3602879701896397 / 18014398509481984)) (float64 k)) [1, 2, 3, 4] =
     [Finite (3602879701896397 / 18014398509481984), Finite (3602879701896397 / 9007199254740992),
      Finite (1351079888211149 / 2251799813685248), Finite (3602879701896397 / 4503599627370496)]"
    by (simp add: fl_eval)
  ultimately show ?thesis by simp
qed


section \<open>The frame fitter\<close>

text \<open>
  The sizes are those of bitmaps that can exist: the source is at most \<open>2^53\<close> pixels wide
  and high (its sizes convert to \<open>float64\<close> exactly), the box at most \<open>2^50\<close>. Within
  these bounds the two roundings of \<open>size * (max / size)\<close> stay within half a pixel of
  \<open>max\<close>.
\<close>

text \<open>One axis: the size times the scale, rounded and converted.\<close>

lemma fit_axis:
  assumes n: "0 < n" "n \<le> 2 ^ 53" and m: "0 < m" "m \<le> 2 ^ 50"
    and r: "\<bar>r - of_int m / of_int n\<bar> \<le> (of_int m / of_int n) * unitRoundoff"
    and s: "1 / 2 ^ 54 \<le> s" "s \<le> r"
  shows "\<exists>k. toInt (Round (fmul (float64 n) (Finite s))) = Some k \<and> 0 \<le> k \<and> k \<le> m \<and>
           (s = r \<longrightarrow> k = m)"
proof -
  define M where "M = (of_int m :: rat)"
  define N where "N = (of_int n :: rat)"
  have M: "1 \<le> M" "M \<le> 2 ^ 50" and N: "1 \<le> N" "N \<le> 2 ^ 53"
    using n m unfolding M_def N_def
    by (simp_all add: of_int_le_numeral_power_cancel_iff)
  have fn: "float64 n = Finite N" unfolding N_def using n by (intro float64_exact) simp_all
  have spos: "0 < s" using s(1) by (rule less_le_trans [rotated]) simp
  note rb = rel_bounds [OF r [folded M_def N_def]]
  have Nr_hi: "N * r \<le> M * (1 + unitRoundoff)"
  proof -
    have "N * r \<le> N * (M / N * (1 + unitRoundoff))" using rb(1) N by (intro mult_left_mono) simp_all
    also have "\<dots> = M * (1 + unitRoundoff)" using N by simp
    finally show ?thesis .
  qed
  have Nr_lo: "M * (1 - unitRoundoff) \<le> N * r"
  proof -
    have "M * (1 - unitRoundoff) = N * (M / N * (1 - unitRoundoff))" using N by simp
    also have "\<dots> \<le> N * r" using rb(2) N by (intro mult_left_mono) simp_all
    finally show ?thesis .
  qed
  have Ns_hi: "N * s \<le> M * (1 + unitRoundoff)"
  proof -
    have "N * s \<le> N * r" using s(2) N by (intro mult_left_mono) simp_all
    with Nr_hi show ?thesis by simp
  qed
  have lo: "pow2 (- 1022) \<le> N * s"
  proof -
    have "pow2 (- 1022) \<le> pow2 (- 54)" by (intro pow2_mono) simp
    also have "\<dots> = 1 / 2 ^ 54" by (simp add: pow2_def)
    also have "\<dots> \<le> s" by (rule s(1))
    also have "\<dots> \<le> N * s" using N spos by (simp add: mult_le_cancel_right1)
    finally show ?thesis .
  qed
  have hi: "N * s \<le> MaxFloat64"
  proof -
    have "M * (1 + unitRoundoff) \<le> 2 ^ 50 * (1 + unitRoundoff)"
      using M(2) unitRoundoff_bounds(1) by (intro mult_right_mono) simp_all
    also have "\<dots> \<le> (2 ^ 53 - 1) * pow2 0" by (simp add: unitRoundoff_def)
    also have "\<dots> \<le> MaxFloat64" unfolding MaxFloat64_def
      by (intro mult_left_mono pow2_mono) simp_all
    finally show ?thesis using Ns_hi by simp
  qed
  from fl_pos_normal [OF lo hi] obtain p where p: "fl (N * s) = Finite p"
    "\<bar>p - N * s\<bar> \<le> N * s * unitRoundoff"
    by blast
  note pb = rel_bounds [OF p(2)]
  have M0: "0 \<le> M" using M(1) by simp
  have up: "p < M + 1 / 2" using M0 M(2) Ns_hi pb(1) by (rule two_roundings_upper)
  have "0 < N * s * (1 - unitRoundoff)"
    using N spos unitRoundoff_bounds(2) by (intro mult_pos_pos) simp_all
  with pb(2) have p0: "0 \<le> p" by simp
  define k where "k = roundAway p"
  have k: "0 \<le> k" "k \<le> m"
    using roundAway_upper [of p m] up p0 unfolding k_def M_def by simp_all
  have "m < 2 ^ 63" using m(2) by simp
  with k have "toInt (Finite (of_int k)) = Some k" by (intro toInt_of_int) simp_all
  then have conv: "toInt (Round (fmul (float64 n) (Finite s))) = Some k"
    by (simp add: fn p(1) k_def)
  have tight: "k = m" if "s = r"
  proof -
    have "M - 1 / 2 < p" using M0 M(2) Nr_lo pb(2) [unfolded that] by (rule two_roundings_lower)
    with up p0 show ?thesis unfolding k_def M_def by (intro roundAway_near) simp_all
  qed
  from conv k tight show ?thesis by blast
qed

lemma Min_Finite: "Min_float (Finite a) (Finite b) = Finite (min a b)"
  by (simp add: Min_float_def min_def)

lemma fitSize_sizes:
  assumes "0 < w" "w \<le> 2 ^ 53" "0 < h" "h \<le> 2 ^ 53"
    "0 < maxW" "maxW \<le> 2 ^ 50" "0 < maxH" "maxH \<le> 2 ^ 50"
  shows "\<exists>rw rh.
     toInt (Round (fmul (float64 w)
       (Min_float (fdiv (float64 maxW) (float64 w)) (fdiv (float64 maxH) (float64 h))))) = Some rw \<and>
     toInt (Round (fmul (float64 h)
       (Min_float (fdiv (float64 maxW) (float64 w)) (fdiv (float64 maxH) (float64 h))))) = Some rh \<and>
     fitSize w h maxW maxH = Some (max 1 rw, max 1 rh) \<and>
     rw \<le> maxW \<and> rh \<le> maxH \<and> (rw = maxW \<or> rh = maxH)"
proof -
  have mx: "maxW \<le> 2 ^ 53" "maxH \<le> 2 ^ 53" using assms(6,8) by simp_all
  from fdiv_sizes [OF assms(5) mx(1) assms(1,2)] obtain ra where
    ra: "fdiv (float64 maxW) (float64 w) = Finite ra"
      "\<bar>ra - of_int maxW / of_int w\<bar> \<le> (of_int maxW / of_int w) * unitRoundoff" "1 / 2 ^ 54 \<le> ra"
    by blast
  from fdiv_sizes [OF assms(7) mx(2) assms(3,4)] obtain rb where
    rb: "fdiv (float64 maxH) (float64 h) = Finite rb"
      "\<bar>rb - of_int maxH / of_int h\<bar> \<le> (of_int maxH / of_int h) * unitRoundoff" "1 / 2 ^ 54 \<le> rb"
    by blast
  define s where "s = min ra rb"
  have sc: "Min_float (fdiv (float64 maxW) (float64 w)) (fdiv (float64 maxH) (float64 h)) = Finite s"
    by (simp add: ra(1) rb(1) Min_Finite s_def)
  have s: "1 / 2 ^ 54 \<le> s" "s \<le> ra" "s \<le> rb" "s = ra \<or> s = rb"
    using ra(3) rb(3) by (auto simp: s_def min_def)
  have spos: "0 < s" using s(1) by (rule less_le_trans [rotated]) simp
  from fit_axis [OF assms(1,2,5,6) ra(2) s(1,2)] obtain rw where
    rw: "toInt (Round (fmul (float64 w) (Finite s))) = Some rw" "0 \<le> rw" "rw \<le> maxW"
      "s = ra \<longrightarrow> rw = maxW"
    by blast
  from fit_axis [OF assms(3,4,7,8) rb(2) s(1,3)] obtain rh where
    rh: "toInt (Round (fmul (float64 h) (Finite s))) = Some rh" "0 \<le> rh" "rh \<le> maxH"
      "s = rb \<longrightarrow> rh = maxH"
    by blast
  have "fitSize w h maxW maxH = Some (max 1 rw, max 1 rh)"
    using spos rw(1) rh(1) unfolding fitSize_def sc Let_def
    by (simp add: IsInf_def IsNaN_def max_def)
  with rw rh s(4) show ?thesis unfolding sc by blast
qed

lemma scaleToFit_fitSize:
  assumes "fitSize (Dx (Bounds img)) (Dy (Bounds img)) maxW maxH = Some (nw, nh)" "0 \<le> nw" "0 \<le> nh"
  shows "\<exists>out. scaleToFit resample img maxW maxH = Some out \<and>
           Bounds out = \<lparr>MinX = 0, MinY = 0, MaxX = nw, MaxY = nh\<rparr>"
  using assms by (simp add: scaleToFit_def Let_def NewRGBA_def Rect_def)

lemma min_near:
  fixes a b ra rb :: rat
  assumes "\<bar>ra - a\<bar> \<le> a * unitRoundoff" "\<bar>rb - b\<bar> \<le> b * unitRoundoff"
  shows "\<bar>min ra rb - min a b\<bar> \<le> min a b * unitRoundoff"
proof -
  note A = rel_bounds [OF assms(1)] and B = rel_bounds [OF assms(2)]
  have u: "0 \<le> 1 - unitRoundoff" "0 \<le> 1 + unitRoundoff" using unitRoundoff_bounds by simp_all
  have hi: "min ra rb \<le> min a b * (1 + unitRoundoff)"
  proof (cases "a \<le> b")
    case True
    have "min ra rb \<le> ra" by simp
    with A(1) True show ?thesis by (simp add: min_def)
  next
    case False
    have "min ra rb \<le> rb" by simp
    with B(1) False show ?thesis by (simp add: min_def)
  qed
  have lo: "min a b * (1 - unitRoundoff) \<le> min ra rb"
  proof -
    have "min a b * (1 - unitRoundoff) \<le> a * (1 - unitRoundoff)"
      using u(1) by (intro mult_right_mono) simp_all
    with A(2) have a: "min a b * (1 - unitRoundoff) \<le> ra" by simp
    have "min a b * (1 - unitRoundoff) \<le> b * (1 - unitRoundoff)"
      using u(1) by (intro mult_right_mono) simp_all
    with B(2) have b: "min a b * (1 - unitRoundoff) \<le> rb" by simp
    from a b show ?thesis by simp
  qed
  define m where "m = min a b"
  define r where "r = min ra rb"
  from hi have "r \<le> m + m * unitRoundoff" unfolding m_def r_def by (simp add: algebra_simps)
  moreover from lo have "m - m * unitRoundoff \<le> r" unfolding m_def r_def by (simp add: algebra_simps)
  ultimately have "\<bar>r - m\<bar> \<le> m * unitRoundoff" unfolding abs_le_iff by linarith
  then show ?thesis unfolding m_def r_def .
qed

lemma axis_near:
  assumes n: "0 < n" "n \<le> 2 ^ 53"
    and t: "0 \<le> t" "of_int n * t \<le> 2 ^ 50"
    and s: "1 / 2 ^ 54 \<le> s" "\<bar>s - t\<bar> \<le> t * unitRoundoff"
    and conv: "toInt (Round (fmul (float64 n) (Finite s))) = Some k"
  shows "\<bar>of_int k - of_int n * t\<bar> < (1 :: rat)"
proof -
  define N where "N = (of_int n :: rat)"
  define X where "X = N * t"
  have N: "1 \<le> N" using n(1) by (simp add: N_def)
  have fn: "float64 n = Finite N" unfolding N_def using n by (intro float64_exact) simp_all
  have spos: "0 < s" using s(1) by (rule less_le_trans [rotated]) simp
  have X50: "X \<le> 2 ^ 50" using t(2) by (simp add: X_def N_def)
  have X0: "0 \<le> X" unfolding X_def using N t(1) by simp
  note rb = rel_bounds [OF s(2)]
  have y_hi: "N * s \<le> X * (1 + unitRoundoff)"
  proof -
    have "N * s \<le> N * (t * (1 + unitRoundoff))" using rb(1) N by (intro mult_left_mono) simp_all
    then show ?thesis by (simp add: X_def mult.assoc)
  qed
  have y_lo: "X * (1 - unitRoundoff) \<le> N * s"
  proof -
    have "N * (t * (1 - unitRoundoff)) \<le> N * s" using rb(2) N by (intro mult_left_mono) simp_all
    then show ?thesis by (simp add: X_def mult.assoc)
  qed
  have lo: "pow2 (- 1022) \<le> N * s"
  proof -
    have "pow2 (- 1022) \<le> pow2 (- 54)" by (intro pow2_mono) simp
    also have "\<dots> = 1 / 2 ^ 54" by (simp add: pow2_def)
    also have "\<dots> \<le> s" by (rule s(1))
    also have "\<dots> \<le> N * s" using N spos by (simp add: mult_le_cancel_right1)
    finally show ?thesis .
  qed
  have hi: "N * s \<le> MaxFloat64"
  proof -
    have "X * (1 + unitRoundoff) \<le> 2 ^ 50 * (1 + unitRoundoff)"
      using X50 unitRoundoff_bounds(1) by (intro mult_right_mono) simp_all
    also have "\<dots> \<le> (2 ^ 53 - 1) * pow2 0" by (simp add: unitRoundoff_def)
    also have "\<dots> \<le> MaxFloat64" unfolding MaxFloat64_def
      by (intro mult_left_mono pow2_mono) simp_all
    finally show ?thesis using y_hi by simp
  qed
  from fl_pos_normal [OF lo hi] obtain p where p: "fl (N * s) = Finite p"
    "\<bar>p - N * s\<bar> \<le> N * s * unitRoundoff"
    by blast
  note pb = rel_bounds [OF p(2)]
  have up: "p < X + 1 / 2" using X0 X50 y_hi pb(1) by (rule two_roundings_upper)
  have down: "X - 1 / 2 < p" using X0 X50 y_lo pb(2) by (rule two_roundings_lower)
  have "0 < N * s * (1 - unitRoundoff)"
    using N spos unitRoundoff_bounds(2) by (intro mult_pos_pos) simp_all
  with pb(2) have p0: "0 \<le> p" by simp
  have "toInt (Finite (of_int (roundAway p))) = Some k" using conv by (simp add: fn p(1))
  then have k: "k = roundAway p" by (simp add: truncToInt_def split: if_splits)
  have "\<bar>of_int (roundAway p) - p\<bar> \<le> 1 / 2" using p0 by (rule roundAway_close)
  with up down have "\<bar>of_int k - X\<bar> < 1" unfolding k abs_less_iff abs_le_iff by linarith
  then show ?thesis by (simp add: X_def N_def)
qed

lemma fitSize_near:
  assumes "0 < w" "w \<le> 2 ^ 53" "0 < h" "h \<le> 2 ^ 53"
    "0 < maxW" "maxW \<le> 2 ^ 50" "0 < maxH" "maxH \<le> 2 ^ 50"
    and rw: "toInt (Round (fmul (float64 w)
       (Min_float (fdiv (float64 maxW) (float64 w)) (fdiv (float64 maxH) (float64 h))))) = Some rw"
    and rh: "toInt (Round (fmul (float64 h)
       (Min_float (fdiv (float64 maxW) (float64 w)) (fdiv (float64 maxH) (float64 h))))) = Some rh"
  shows "\<bar>of_int rw - of_int w * min (of_int maxW / of_int w) (of_int maxH / of_int h)\<bar> < (1 :: rat)"
    "\<bar>of_int rh - of_int h * min (of_int maxW / of_int w) (of_int maxH / of_int h)\<bar> < (1 :: rat)"
proof -
  define a where "a = (of_int maxW / of_int w :: rat)"
  define b where "b = (of_int maxH / of_int h :: rat)"
  have mx: "maxW \<le> 2 ^ 53" "maxH \<le> 2 ^ 53" using assms(6,8) by simp_all
  from fdiv_sizes [OF assms(5) mx(1) assms(1,2)] obtain ra where
    ra: "fdiv (float64 maxW) (float64 w) = Finite ra"
      "\<bar>ra - a\<bar> \<le> a * unitRoundoff" "1 / 2 ^ 54 \<le> ra"
    unfolding a_def by blast
  from fdiv_sizes [OF assms(7) mx(2) assms(3,4)] obtain rb where
    rb: "fdiv (float64 maxH) (float64 h) = Finite rb"
      "\<bar>rb - b\<bar> \<le> b * unitRoundoff" "1 / 2 ^ 54 \<le> rb"
    unfolding b_def by blast
  have sc: "Min_float (fdiv (float64 maxW) (float64 w)) (fdiv (float64 maxH) (float64 h)) = Finite (min ra rb)"
    by (simp add: ra(1) rb(1) Min_Finite)
  have s: "1 / 2 ^ 54 \<le> min ra rb" using ra(3) rb(3) by simp
  note near = min_near [OF ra(2) rb(2)]
  have a0: "0 < a" "0 < b" using assms(1,3,5,7) by (simp_all add: a_def b_def)
  then have t0: "0 \<le> min a b" by simp
  have wa: "of_int w * a = (of_int maxW :: rat)" using assms(1) by (simp add: a_def)
  have hb: "of_int h * b = (of_int maxH :: rat)" using assms(3) by (simp add: b_def)
  have M: "(of_int maxW :: rat) \<le> 2 ^ 50" "(of_int maxH :: rat) \<le> 2 ^ 50"
    using assms(6,8) by (simp_all add: of_int_le_numeral_power_cancel_iff)
  have "of_int w * min a b \<le> of_int w * a" using assms(1) by (intro mult_left_mono) simp_all
  with wa M(1) have W: "of_int w * min a b \<le> 2 ^ 50" by simp
  have "of_int h * min a b \<le> of_int h * b" using assms(3) by (intro mult_left_mono) simp_all
  with hb M(2) have H: "of_int h * min a b \<le> 2 ^ 50" by simp
  show "\<bar>of_int rw - of_int w * min (of_int maxW / of_int w) (of_int maxH / of_int h)\<bar> < (1 :: rat)"
    using axis_near [OF assms(1,2) t0 W s near rw [unfolded sc]] by (simp add: a_def b_def)
  show "\<bar>of_int rh - of_int h * min (of_int maxW / of_int w) (of_int maxH / of_int h)\<bar> < (1 :: rat)"
    using axis_near [OF assms(3,4) t0 H s near rh [unfolded sc]] by (simp add: a_def b_def)
qed

text \<open>
  Claim C3, as the code has it. For a bitmap of width \<open>w > 0\<close> and height \<open>h > 0\<close> and a
  box with \<open>maxW > 0\<close> and \<open>maxH > 0\<close> (sizes within the bounds above), \<open>scaleToFit\<close>
  returns a bitmap of \<open>round(w * scale)\<close> by \<open>round(h * scale)\<close> pixels with
  \<open>scale = min(maxW / w, maxH / h)\<close>, each floored at 1, where the quotients, the minimum
  and the products are the \<open>float64\<close> operations of the code, each rounded on its own:
  the guard on the scale does not fire and both conversions to \<open>int\<close> are defined. The
  width is at most \<open>maxW\<close>, the height at most \<open>maxH\<close>. Each rounded product is less than
  1 away from the exact product of the size and the exact scale; it is not always that
  exact product rounded.
\<close>

theorem scaleToFit_size:
  assumes "0 < Dx (Bounds img)" "Dx (Bounds img) \<le> 2 ^ 53"
    and "0 < Dy (Bounds img)" "Dy (Bounds img) \<le> 2 ^ 53"
    and "0 < maxW" "maxW \<le> 2 ^ 50" "0 < maxH" "maxH \<le> 2 ^ 50"
  shows "\<exists>out rw rh.
     scaleToFit resample img maxW maxH = Some out \<and>
     (let scale = Min_float (fdiv (float64 maxW) (float64 (Dx (Bounds img))))
                      (fdiv (float64 maxH) (float64 (Dy (Bounds img))))
      in toInt (Round (fmul (float64 (Dx (Bounds img))) scale)) = Some rw \<and>
         toInt (Round (fmul (float64 (Dy (Bounds img))) scale)) = Some rh) \<and>
     Bounds out = \<lparr>MinX = 0, MinY = 0, MaxX = max 1 rw, MaxY = max 1 rh\<rparr> \<and>
     Dx (Bounds out) = max 1 rw \<and> Dy (Bounds out) = max 1 rh \<and>
     Dx (Bounds out) \<le> maxW \<and> Dy (Bounds out) \<le> maxH \<and>
     (let exact = min (of_int maxW / of_int (Dx (Bounds img)))
                      (of_int maxH / of_int (Dy (Bounds img))) :: rat
      in \<bar>of_int rw - of_int (Dx (Bounds img)) * exact\<bar> < 1 \<and>
         \<bar>of_int rh - of_int (Dy (Bounds img)) * exact\<bar> < 1)"
proof -
  from fitSize_sizes [OF assms] obtain rw rh where
    r: "toInt (Round (fmul (float64 (Dx (Bounds img)))
         (Min_float (fdiv (float64 maxW) (float64 (Dx (Bounds img))))
              (fdiv (float64 maxH) (float64 (Dy (Bounds img))))))) = Some rw"
       "toInt (Round (fmul (float64 (Dy (Bounds img)))
         (Min_float (fdiv (float64 maxW) (float64 (Dx (Bounds img))))
              (fdiv (float64 maxH) (float64 (Dy (Bounds img))))))) = Some rh"
       "fitSize (Dx (Bounds img)) (Dy (Bounds img)) maxW maxH = Some (max 1 rw, max 1 rh)"
       "rw \<le> maxW" "rh \<le> maxH"
    by blast
  have nn: "0 \<le> max 1 rw" "0 \<le> max 1 rh" by simp_all
  from scaleToFit_fitSize [OF r(3) nn, of resample] obtain out where
    out: "scaleToFit resample img maxW maxH = Some out"
      "Bounds out = \<lparr>MinX = 0, MinY = 0, MaxX = max 1 rw, MaxY = max 1 rh\<rparr>"
    by blast
  have d: "Dx (Bounds out) = max 1 rw" "Dy (Bounds out) = max 1 rh"
    by (simp_all add: out(2) Dx_def Dy_def)
  have le: "max 1 rw \<le> maxW" "max 1 rh \<le> maxH" using r(4,5) assms(5,7) by simp_all
  note near = fitSize_near [OF assms r(1,2)]
  show ?thesis
    unfolding Let_def
    using out r(1,2) d le near by (intro exI [of _ out] exI [of _ rw] exI [of _ rh]) simp
qed

text \<open>
  The theorem on a frame of 640 by 360 and a cell of 100 by 56: the result is 100 by 56.
\<close>

theorem scaleToFit_size_witness:
  "0 < Dx (Bounds videoFrame) \<and> Dx (Bounds videoFrame) \<le> 2 ^ 53 \<and>
   0 < Dy (Bounds videoFrame) \<and> Dy (Bounds videoFrame) \<le> 2 ^ 53 \<and>
   (0::int) < 100 \<and> (100::int) \<le> 2 ^ 50 \<and> (0::int) < 56 \<and> (56::int) \<le> 2 ^ 50 \<and>
   (\<exists>out. scaleToFit nearest videoFrame 100 56 = Some out \<and>
      Bounds out = \<lparr>MinX = 0, MinY = 0, MaxX = 100, MaxY = 56\<rparr> \<and>
      Dx (Bounds out) \<le> 100 \<and> Dy (Bounds out) \<le> 56 \<and>
      \<bar>of_int (Dx (Bounds out)) - 640 * min (100 / 640) (56 / 360)\<bar> < (1 :: rat) \<and>
      \<bar>of_int (Dy (Bounds out)) - 360 * min (100 / 640) (56 / 360)\<bar> < (1 :: rat))"
proof -
  have h: "0 < Dx (Bounds videoFrame)" "Dx (Bounds videoFrame) \<le> 2 ^ 53"
    "0 < Dy (Bounds videoFrame)" "Dy (Bounds videoFrame) \<le> 2 ^ 53"
    "(0::int) < 100" "(100::int) \<le> 2 ^ 50" "(0::int) < 56" "(56::int) \<le> 2 ^ 50"
    by (simp_all add: videoFrame_def Dx_def Dy_def)
  have d: "Dx (Bounds videoFrame) = 640" "Dy (Bounds videoFrame) = 360"
    by (simp_all add: videoFrame_def Dx_def Dy_def)
  have e: "toInt (Round (fmul (float64 640) (Min_float (fdiv (float64 100) (float64 640))
             (fdiv (float64 56) (float64 360))))) = Some 100"
    "toInt (Round (fmul (float64 360) (Min_float (fdiv (float64 100) (float64 640))
             (fdiv (float64 56) (float64 360))))) = Some 56"
    by (simp_all add: fl_eval Min_float_def)
  from scaleToFit_size [OF h, of nearest] e show ?thesis
    using h unfolding d Let_def by auto
qed

text \<open>The steps of the fitter on a frame of 1280 by 720 and a box of 328 by 185.\<close>

lemma hd_scale:
  "Min_float (fdiv (float64 328) (float64 1280)) (fdiv (float64 185) (float64 720)) =
     Finite (2308094809027379 / 2 ^ 53)"
proof -
  have a: "fdiv (float64 328) (float64 1280) = Finite (2308094809027379 / 2 ^ 53)"
    by (simp add: fl_eval)
  have b: "fdiv (float64 185) (float64 720) = Finite (1157174904254919 / 2 ^ 52)"
    by (simp add: fl_eval)
  show ?thesis unfolding a b by (simp add: Min_float_def)
qed

lemma hd_width: "toInt (Round (fmul (float64 1280) (Finite (2308094809027379 / 2 ^ 53)))) = Some 328"
  by (simp add: fl_eval)

lemma hd_height: "toInt (Round (fmul (float64 720) (Finite (2308094809027379 / 2 ^ 53)))) = Some 184"
  by (simp add: fl_eval)

lemma hd_fitSize: "fitSize 1280 720 328 185 = Some (328, 184)"
  using hd_width hd_height unfolding fitSize_def hd_scale Let_def
  by (simp add: IsInf_def IsNaN_def)

text \<open>
  Claim C3 as it is written does not hold when the operations are the exact ones. A frame
  of 1280 by 720 fitted into a box of 328 by 185: the exact scale is \<open>328 / 1280\<close>, the
  exact height \<open>720 * 328 / 1280 = 184.5\<close> rounds to 185, and the claimed size is 328 by
  185. The code divides first: the quotient \<open>328 / 1280\<close> is rounded down to a \<open>float64\<close>,
  the product with 720 is \<open>184.49999999999997\<close>, and the bitmap returned is 328 by 184.
\<close>

theorem scaleToFit_size_counterexample:
  "0 < Dx (Bounds hdFrame) \<and> 0 < Dy (Bounds hdFrame) \<and> (0::int) < 328 \<and> (0::int) < 185 \<and>
   (case scaleToFit nearest hdFrame 328 185 of None \<Rightarrow> False
    | Some out \<Rightarrow> Dx (Bounds out) = 328 \<and> Dy (Bounds out) = 184) \<and>
   max 1 (roundAway (of_int (Dx (Bounds hdFrame)) *
      min (328 / of_int (Dx (Bounds hdFrame))) (185 / of_int (Dy (Bounds hdFrame))))) = 328 \<and>
   max 1 (roundAway (of_int (Dy (Bounds hdFrame)) *
      min (328 / of_int (Dx (Bounds hdFrame))) (185 / of_int (Dy (Bounds hdFrame))))) = 185"
proof -
  have d: "Dx (Bounds hdFrame) = 1280" "Dy (Bounds hdFrame) = 720"
    by (simp_all add: hdFrame_def Dx_def Dy_def)
  have s: "case scaleToFit nearest hdFrame 328 185 of None \<Rightarrow> False
    | Some out \<Rightarrow> Dx (Bounds out) = 328 \<and> Dy (Bounds out) = 184"
    unfolding scaleToFit_def Let_def d hd_fitSize
    by (simp add: NewRGBA_def Rect_def Dx_def Dy_def)
  have r: "roundAway (1280 * min (328 / 1280) (185 / 720)) = 328"
    "roundAway (720 * min (328 / 1280) (185 / 720)) = 185"
    by (simp_all add: roundAway_def)
  show ?thesis using s r unfolding d by simp
qed

text \<open>
  Claim C7. Under the same conditions one dimension of the fitted frame is exactly its
  bound: the width is \<open>maxW\<close> or the height is \<open>maxH\<close>.
\<close>

theorem scaleToFit_touches_box:
  assumes "0 < Dx (Bounds img)" "Dx (Bounds img) \<le> 2 ^ 53"
    and "0 < Dy (Bounds img)" "Dy (Bounds img) \<le> 2 ^ 53"
    and "0 < maxW" "maxW \<le> 2 ^ 50" "0 < maxH" "maxH \<le> 2 ^ 50"
  shows "\<exists>out. scaleToFit resample img maxW maxH = Some out \<and>
           (Dx (Bounds out) = maxW \<or> Dy (Bounds out) = maxH)"
proof -
  from fitSize_sizes [OF assms] obtain rw rh where
    r: "fitSize (Dx (Bounds img)) (Dy (Bounds img)) maxW maxH = Some (max 1 rw, max 1 rh)"
       "rw = maxW \<or> rh = maxH"
    by blast
  have nn: "0 \<le> max 1 rw" "0 \<le> max 1 rh" by simp_all
  from scaleToFit_fitSize [OF r(1) nn, of resample] obtain out where
    out: "scaleToFit resample img maxW maxH = Some out"
      "Bounds out = \<lparr>MinX = 0, MinY = 0, MaxX = max 1 rw, MaxY = max 1 rh\<rparr>"
    by blast
  have "Dx (Bounds out) = max 1 rw" "Dy (Bounds out) = max 1 rh"
    by (simp_all add: out(2) Dx_def Dy_def)
  with r(2) assms(5,7) out(1) show ?thesis by auto
qed

text \<open>The theorem on a frame of 640 by 360 and a box of 320 by 240.\<close>

theorem scaleToFit_touches_box_witness:
  "0 < Dx (Bounds videoFrame) \<and> Dx (Bounds videoFrame) \<le> 2 ^ 53 \<and>
   0 < Dy (Bounds videoFrame) \<and> Dy (Bounds videoFrame) \<le> 2 ^ 53 \<and>
   (0::int) < 320 \<and> (320::int) \<le> 2 ^ 50 \<and> (0::int) < 240 \<and> (240::int) \<le> 2 ^ 50 \<and>
   (\<exists>out. scaleToFit nearest videoFrame 320 240 = Some out \<and>
      (Dx (Bounds out) = 320 \<or> Dy (Bounds out) = 240))"
proof -
  have h: "0 < Dx (Bounds videoFrame)" "Dx (Bounds videoFrame) \<le> 2 ^ 53"
    "0 < Dy (Bounds videoFrame)" "Dy (Bounds videoFrame) \<le> 2 ^ 53"
    "(0::int) < 320" "(320::int) \<le> 2 ^ 50" "(0::int) < 240" "(240::int) \<le> 2 ^ 50"
    by (simp_all add: videoFrame_def Dx_def Dy_def)
  from scaleToFit_touches_box [OF h, of nearest] h show ?thesis by blast
qed

section \<open>Cell-height inference\<close>

lemma fallbackHeight_trunc:
  assumes "0 < cw" "cw < 2 ^ 49"
  shows "fallbackHeight cw = Some (cw * 9 div 16)"
proof -
  have c53: "cw \<le> 2 ^ 53" "cw * 9 < 2 ^ 53" using assms by simp_all
  have f: "float64 cw = Finite (of_int cw)" using assms(1) c53(1) by (rule float64_exact)
  have "fl (of_int (cw * 9) * pow2 0) = Finite (of_int (cw * 9) * pow2 0)"
    using assms(1) c53(2) by (intro fl_representable) simp_all
  then have m: "fmul (float64 cw) (Finite 9) = Finite (of_int (cw * 9))"
    by (simp add: f)
  have "fl (of_int (cw * 9) * pow2 (- 4)) = Finite (of_int (cw * 9) * pow2 (- 4))"
    using assms(1) c53(2) by (intro fl_representable) simp_all
  moreover have "pow2 (- 4) = 1 / 16" by (simp add: pow2_def)
  ultimately have d: "fdiv (Finite (of_int (cw * 9))) (Finite 16) = Finite (of_int (cw * 9) / 16)"
    by simp
  have "(of_int (cw * 9) :: rat) / 16 = of_int (cw * 9) / of_int 16" by simp
  then have fl16: "\<lfloor>(of_int (cw * 9) :: rat) / 16\<rfloor> = cw * 9 div 16"
    by (simp only: floor_divide_of_int_eq)
  have nn: "0 \<le> (of_int (cw * 9) :: rat) / 16" using assms(1) by simp
  have t: "truncToInt (of_int (cw * 9) / 16) = cw * 9 div 16"
    using nn fl16 by (simp add: truncToInt_def)
  have "0 \<le> cw * 9 div 16" "cw * 9 div 16 < 2 ^ 63" using assms by simp_all
  with t show ?thesis
    unfolding fallbackHeight_def m d by simp
qed

text \<open>The main branch: the product of the cell width and the rounded aspect ratio.\<close>

lemma height_product:
  assumes cw: "0 < cw" "cw < 2 ^ 49" and vw: "0 < vw" "vw \<le> 2 ^ 53" and vh: "0 < vh" "vh \<le> 2 ^ 53"
    and small: "cw * vh \<le> 2 ^ 50 * vw"
  shows "\<exists>h. toInt (Round (fmul (float64 cw) (fdiv (float64 vh) (float64 vw)))) = Some h \<and>
           0 \<le> h \<and> \<bar>of_int h - of_int cw * of_int vh / of_int vw\<bar> < (1 :: rat)"
proof -
  define C where "C = (of_int cw :: rat)"
  define X where "X = C * (of_int vh / of_int vw)"
  have C: "1 \<le> C" using cw(1) by (simp add: C_def)
  have fc: "float64 cw = Finite C" unfolding C_def using cw by (intro float64_exact) simp_all
  from fdiv_sizes [OF vh vw] obtain r where
    r: "fdiv (float64 vh) (float64 vw) = Finite r"
      "\<bar>r - of_int vh / of_int vw\<bar> \<le> (of_int vh / of_int vw) * unitRoundoff" "1 / 2 ^ 54 \<le> r"
    by blast
  have rpos: "0 < r" using r(3) by (rule less_le_trans [rotated]) simp
  have VW: "(0 :: rat) < of_int vw" using vw(1) by simp
  have "(of_int (cw * vh) :: rat) \<le> of_int (2 ^ 50 * vw)" using small by (simp only: of_int_le_iff)
  then have "C * of_int vh \<le> 2 ^ 50 * of_int vw" by (simp add: C_def)
  then have X50: "X \<le> 2 ^ 50" unfolding X_def using VW by (simp add: field_simps)
  have X0: "0 \<le> X" unfolding X_def using C vh(1) vw(1) by simp
  note rb = rel_bounds [OF r(2)]
  have y_hi: "C * r \<le> X * (1 + unitRoundoff)"
  proof -
    have "C * r \<le> C * (of_int vh / of_int vw * (1 + unitRoundoff))"
      using rb(1) C by (intro mult_left_mono) simp_all
    then show ?thesis by (simp add: X_def mult.assoc)
  qed
  have y_lo: "X * (1 - unitRoundoff) \<le> C * r"
  proof -
    have "C * (of_int vh / of_int vw * (1 - unitRoundoff)) \<le> C * r"
      using rb(2) C by (intro mult_left_mono) simp_all
    then show ?thesis by (simp add: X_def mult.assoc)
  qed
  have lo: "pow2 (- 1022) \<le> C * r"
  proof -
    have "pow2 (- 1022) \<le> pow2 (- 54)" by (intro pow2_mono) simp
    also have "\<dots> = 1 / 2 ^ 54" by (simp add: pow2_def)
    also have "\<dots> \<le> r" by (rule r(3))
    also have "\<dots> \<le> C * r" using C rpos by (simp add: mult_le_cancel_right1)
    finally show ?thesis .
  qed
  have hi: "C * r \<le> MaxFloat64"
  proof -
    have "X * (1 + unitRoundoff) \<le> 2 ^ 50 * (1 + unitRoundoff)"
      using X50 unitRoundoff_bounds(1) by (intro mult_right_mono) simp_all
    also have "\<dots> \<le> (2 ^ 53 - 1) * pow2 0" by (simp add: unitRoundoff_def)
    also have "\<dots> \<le> MaxFloat64" unfolding MaxFloat64_def
      by (intro mult_left_mono pow2_mono) simp_all
    finally show ?thesis using y_hi by simp
  qed
  from fl_pos_normal [OF lo hi] obtain p where p: "fl (C * r) = Finite p"
    "\<bar>p - C * r\<bar> \<le> C * r * unitRoundoff"
    by blast
  note pb = rel_bounds [OF p(2)]
  have up: "p < X + 1 / 2" using X0 X50 y_hi pb(1) by (rule two_roundings_upper)
  have down: "X - 1 / 2 < p" using X0 X50 y_lo pb(2) by (rule two_roundings_lower)
  have "0 < C * r * (1 - unitRoundoff)"
    using C rpos unitRoundoff_bounds(2) by (intro mult_pos_pos) simp_all
  with pb(2) have p0: "0 \<le> p" by simp
  define h where "h = roundAway p"
  have "p < of_int (2 ^ 50) + 1 / 2" using up X50 by simp
  from roundAway_upper [OF this p0] have h: "0 \<le> h" "h \<le> 2 ^ 50" by (simp_all add: h_def)
  then have "toInt (Finite (of_int h)) = Some h" by (intro toInt_of_int) simp_all
  then have conv: "toInt (Round (fmul (float64 cw) (fdiv (float64 vh) (float64 vw)))) = Some h"
    by (simp add: fc r(1) p(1) h_def)
  have "\<bar>of_int h - p\<bar> \<le> 1 / 2" unfolding h_def using p0 by (rule roundAway_close)
  with up down have "\<bar>of_int h - X\<bar> < 1" unfolding abs_less_iff abs_le_iff by linarith
  then have "\<bar>of_int h - of_int cw * of_int vh / of_int vw\<bar> < (1 :: rat)"
    by (simp add: X_def C_def)
  with conv h(1) show ?thesis by blast
qed

text \<open>
  Claim C4, as the code has it. For a cell width \<open>cw\<close> with \<open>0 < cw < 2^49\<close>:
  \<^item> when the source width or height is not positive, the result is the fallback, and the
    fallback is \<open>cw * 9 / 16\<close> with the fraction dropped (\<open>int(...)\<close>), not rounded;
  \<^item> otherwise, with \<open>h = round(cw * ratio)\<close>, \<open>ratio = videoHeight / videoWidth\<close>, each a
    \<open>float64\<close> operation rounded on its own, the result is \<open>h\<close> when \<open>h\<close> is positive and
    the same fallback when it is not;
  \<^item> for source dimensions up to \<open>2^53\<close> and an exact height \<open>cw * videoHeight / videoWidth\<close>
    of at most \<open>2^50\<close>, that \<open>h\<close> is defined, not negative, and less than 1 away from the
    exact height.
\<close>

theorem inferCellHeight_cases:
  assumes "0 < cw" "cw < 2 ^ 49"
  shows "(vw \<le> 0 \<or> vh \<le> 0 \<longrightarrow> inferCellHeight cw vw vh = Some (cw * 9 div 16)) \<and>
         (0 < vw \<and> 0 < vh \<and>
          toInt (Round (fmul (float64 cw) (fdiv (float64 vh) (float64 vw)))) = Some h \<longrightarrow>
            inferCellHeight cw vw vh = Some (if 0 < h then h else cw * 9 div 16)) \<and>
         (0 < vw \<and> vw \<le> 2 ^ 53 \<and> 0 < vh \<and> vh \<le> 2 ^ 53 \<and> cw * vh \<le> 2 ^ 50 * vw \<longrightarrow>
            (\<exists>k. toInt (Round (fmul (float64 cw) (fdiv (float64 vh) (float64 vw)))) = Some k \<and>
                 0 \<le> k \<and> \<bar>of_int k - of_int cw * of_int vh / of_int vw\<bar> < (1 :: rat)))"
proof (intro conjI impI)
  note fb = fallbackHeight_trunc [OF assms]
  show "inferCellHeight cw vw vh = Some (cw * 9 div 16)" if "vw \<le> 0 \<or> vh \<le> 0"
    using that fb by (auto simp: inferCellHeight_def)
  show "inferCellHeight cw vw vh = Some (if 0 < h then h else cw * 9 div 16)"
    if "0 < vw \<and> 0 < vh \<and>
        toInt (Round (fmul (float64 cw) (fdiv (float64 vh) (float64 vw)))) = Some h"
    using that fb by (auto simp: inferCellHeight_def Let_def)
  show "\<exists>k. toInt (Round (fmul (float64 cw) (fdiv (float64 vh) (float64 vw)))) = Some k \<and>
          0 \<le> k \<and> \<bar>of_int k - of_int cw * of_int vh / of_int vw\<bar> < (1 :: rat)"
    if "0 < vw \<and> vw \<le> 2 ^ 53 \<and> 0 < vh \<and> vh \<le> 2 ^ 53 \<and> cw * vh \<le> 2 ^ 50 * vw"
    using that height_product [OF assms, of vw vh] by blast
qed

text \<open>
  The theorem at the inputs of the specification: a cell width of 320 gives 180 for a
  source of 0 by 0 (the fallback) and 180 for a source of 1920 by 1080.
\<close>

theorem inferCellHeight_cases_witness:
  "(0::int) < 320 \<and> (320::int) < 2 ^ 49 \<and> ((0::int) \<le> 0 \<or> (0::int) \<le> 0) \<and>
   inferCellHeight 320 0 0 = Some 180 \<and>
   (0::int) < 1920 \<and> (1920::int) \<le> 2 ^ 53 \<and> (0::int) < 1080 \<and> (1080::int) \<le> 2 ^ 53 \<and>
   (320::int) * 1080 \<le> 2 ^ 50 * 1920 \<and>
   toInt (Round (fmul (float64 320) (fdiv (float64 1080) (float64 1920)))) = Some 180 \<and>
   inferCellHeight 320 1920 1080 = Some 180 \<and>
   (\<exists>k. toInt (Round (fmul (float64 320) (fdiv (float64 1080) (float64 1920)))) = Some k \<and>
        0 \<le> k \<and> \<bar>of_int k - of_int 320 * of_int 1080 / of_int 1920\<bar> < (1 :: rat))"
proof -
  have c: "(0::int) < 320" "(320::int) < 2 ^ 49" by simp_all
  have v: "(0::int) < 1920 \<and> (1920::int) \<le> 2 ^ 53 \<and> (0::int) < 1080 \<and> (1080::int) \<le> 2 ^ 53 \<and>
      (320::int) * 1080 \<le> 2 ^ 50 * 1920"
    by simp
  have e: "toInt (Round (fmul (float64 320) (fdiv (float64 1080) (float64 1920)))) = Some 180"
    by (simp add: fl_eval)
  note t0 = inferCellHeight_cases [OF c, of 0 0 0]
  note t1 = inferCellHeight_cases [OF c, of 1920 1080 180]
  from t0 have a: "inferCellHeight 320 0 0 = Some 180" by simp
  from t1 e have b: "inferCellHeight 320 1920 1080 = Some 180" by simp
  from t1 v have "\<exists>k. toInt (Round (fmul (float64 320) (fdiv (float64 1080) (float64 1920)))) = Some k \<and>
        0 \<le> k \<and> \<bar>of_int k - of_int 320 * of_int 1080 / of_int 1920\<bar> < (1 :: rat)"
    by blast
  with a b c v e show ?thesis by blast
qed


text \<open>
  Claim C4 as it is written does not hold. It says that the fallback is
  \<open>round(cellWidth * 9 / 16)\<close>: for a cell width of 3 and a source of 0 by 0 the code
  returns 1, and \<open>3 * 9 / 16 = 1.6875\<close> rounds to 2. It says that the main branch returns
  \<open>round(cellWidth * videoHeight / videoWidth)\<close>: for a cell width of 7 and a source of 14
  by 61 the code returns 30 (the ratio is rounded before the product), and
  \<open>7 * 61 / 14 = 30.5\<close> rounds to 31.
\<close>

theorem inferCellHeight_counterexample:
  "inferCellHeight 3 0 0 = Some 1 \<and> roundAway (3 * 9 / 16) = 2 \<and>
   inferCellHeight 7 14 61 = Some 30 \<and> roundAway (7 * 61 / 14) = 31"
  by (simp add: inferCellHeight_def fallbackHeight_def fl_eval)


text \<open>
  Claim C10. The inferred cell height can be 0 for a positive cell width: with a cell
  width of 1 and source dimensions that are not positive, the fallback is
  \<open>int(1 * 9.0 / 16.0) = int(0.5625) = 0\<close>, and nothing checks it.
\<close>

theorem inferCellHeight_can_be_zero:
  "inferCellHeight 1 0 0 = Some 0 \<and> inferCellHeight 1 (- 1) 1080 = Some 0"
  by (simp add: inferCellHeight_def fallbackHeight_def fl_eval)

end
